theory Spec2Isabelle
  imports Main "HOL-Library.Char_ord" "HOL-Library.List_Lexorder"
begin

section \<open>Strings, lines and the case-fold key\<close>

text \<open>
  Python strings are modelled as \<open>string\<close>: a \<open>char\<close> is the code point of its
  number, U+0000 to U+00FF, and the definitions of this section are Python's on every
  such string. The case-folded key of a string is the list of its code points after
  folding, which may lie above U+00FF; keys are compared as Python compares strings
  (code point by code point, a proper prefix first).
\<close>

definition LF :: char where
  "LF = CHR 0x0A"

definition CR :: char where
  "CR = CHR 0x0D"

text \<open>\<open>str.isspace\<close> on one character: TAB, LF, VT, FF, CR, FS, GS, RS, US, SPACE, and
  above ASCII NEL (U+0085) and NO-BREAK SPACE (U+00A0).\<close>

definition isspace :: "char \<Rightarrow> bool" where
  "isspace c = (c \<in> set [CHR 0x09, CHR 0x0A, CHR 0x0B, CHR 0x0C, CHR 0x0D,
                           CHR 0x1C, CHR 0x1D, CHR 0x1E, CHR 0x1F, CHR 0x20,
                           CHR 0x85, CHR 0xA0])"

text \<open>\<open>str.strip()\<close>: white space is removed at both ends.\<close>

definition strip :: "string \<Rightarrow> string" where
  "strip s = rev (dropWhile isspace (rev (dropWhile isspace s)))"

text \<open>
  Unicode's full case folding of one code point up to U+00FF: A to Z and the capital
  letters U+00C0 to U+00DE (but for the multiplication sign U+00D7) move up by 32, the
  sharp s U+00DF becomes \<open>ss\<close>, the micro sign U+00B5 becomes the Greek mu U+03BC, every
  other code point stays.
\<close>

definition casefold_char :: "char \<Rightarrow> nat list" where
  "casefold_char c =
     (let n = of_char c :: nat in
      if (65 \<le> n \<and> n \<le> 90) \<or> (192 \<le> n \<and> n \<le> 222 \<and> n \<noteq> 215) then [n + 32]
      else if n = 223 then [115, 115]
      else if n = 181 then [956]
      else [n])"

text \<open>\<open>str.casefold\<close>, the sort key of the merge.\<close>

definition casefold :: "string \<Rightarrow> nat list" where
  "casefold s = concat (map casefold_char s)"

text \<open>\<open>sep.join(xs)\<close>.\<close>

fun join :: "string \<Rightarrow> string list \<Rightarrow> string" where
  "join sep [] = []"
| "join sep [x] = x"
| "join sep (x # y # ys) = x @ sep @ join sep (y # ys)"

text \<open>
  A file opened for reading in text mode translates \<open>\r\n\<close> and a lone \<open>\r\<close> to
  \<open>\n\<close> (universal newlines); \<open>readlines()\<close> then cuts the text after every
  \<open>\n\<close> and keeps the \<open>\n\<close> at the end of each line.
\<close>

fun universal_newlines :: "string \<Rightarrow> string" where
  "universal_newlines [] = []"
| "universal_newlines [c] = (if c = CR then [LF] else [c])"
| "universal_newlines (c # d # cs) =
     (if c = CR \<and> d = LF then LF # universal_newlines cs
      else if c = CR then LF # universal_newlines (d # cs)
      else c # universal_newlines (d # cs))"

fun split_lines :: "string \<Rightarrow> string list" where
  "split_lines [] = []"
| "split_lines (c # cs) =
     (if c = LF then [LF] # split_lines cs
      else (case split_lines cs of
              [] \<Rightarrow> [[c]]
            | l # ls \<Rightarrow> (c # l) # ls))"

definition readlines :: "string \<Rightarrow> string list" where
  "readlines text = split_lines (universal_newlines text)"

section \<open>Pages\<close>

datatype py_error =
    IndexError | AttributeError | KeyError | URLError | ValueError
  | FileNotFoundError | PermissionError | UnicodeDecodeError

text \<open>
  A page is modelled by what the two BeautifulSoup queries of the source find in it.
  \<open>word_lists\<close> holds one list per \<open>ul\<close> element of the class the source looks for;
  each \<open>li\<close> of it is \<open>None\<close> when it has no anchor, \<open>Some None\<close> when the
  anchor's \<open>.string\<close> is \<open>None\<close>, and \<open>Some (Some s)\<close> when it is the text \<open>s\<close>.
  \<open>next_link\<close> is \<open>None\<close> when no anchor has \<open>rel="next"\<close>, \<open>Some None\<close> when
  that anchor has no \<open>href\<close>, and \<open>Some (Some h)\<close> when its \<open>href\<close> is \<open>h\<close>.
\<close>

record html =
  word_lists :: "string option option list list"
  next_link :: "string option option"

text \<open>The loop over the \<open>li\<close> elements: an \<open>li\<close> without anchor raises, an anchor
  without text or with empty text is skipped.\<close>

fun extract_items :: "string option option list \<Rightarrow> py_error + string list" where
  "extract_items [] = Inr []"
| "extract_items (None # lis) = Inl AttributeError"
| "extract_items (Some None # lis) = extract_items lis"
| "extract_items (Some (Some a) # lis) =
     (case extract_items lis of
        Inl e \<Rightarrow> Inl e
      | Inr es \<Rightarrow> Inr (if a = [] then es else a # es))"

text \<open>\<open>list(extract_page_entries(html))\<close>: the generator run to its end.\<close>

definition extract_page_entries :: "html \<Rightarrow> py_error + string list" where
  "extract_page_entries page =
     (case word_lists page of
        [] \<Rightarrow> Inl IndexError
      | ul # _ \<Rightarrow> extract_items ul)"

definition get_next :: "html \<Rightarrow> py_error + string option" where
  "get_next page =
     (case next_link page of
        None \<Rightarrow> Inr None
      | Some None \<Rightarrow> Inl KeyError
      | Some (Some href) \<Rightarrow> Inr (Some (''https://www.urbandictionary.com'' @ href)))"

section \<open>The crawl of one letter\<close>

definition API :: "string \<Rightarrow> string" where
  "API letter = ''https://www.urbandictionary.com/browse.php?character='' @ letter"

definition MAX_ATTEMPTS :: nat where
  "MAX_ATTEMPTS = 10"

definition DELAY :: nat where
  "DELAY = 10"

text \<open>
  \<open>urlopen\<close> either raises (a transport error) or returns a response with a status code
  and a body; with the opener the source installs, a status other than 200 is returned,
  not raised. The network is a parameter: \<open>net t u\<close> is what the fetch of \<open>u\<close> gives
  when \<open>t\<close> fetches were made before it.
\<close>

datatype fetch_result = Raised py_error | Response nat html

type_synonym network = "nat \<Rightarrow> string \<Rightarrow> fetch_result"

datatype event =
    Progress string string
  | Fetch string fetch_result
  | Print string nat
  | Sleep nat

record crawl_state =
  url :: "string option"
  attempt :: nat
  pages :: "string list list"
  clock :: nat
  trace :: "event list"

text \<open>How the generator ends: its loop condition became false, it left the loop at
  the retry ceiling, or an exception left it.\<close>

datatype outcome = Exhausted | Abandoned | Excepted py_error

datatype step_result = Continue crawl_state | Stop outcome crawl_state

text \<open>One iteration of the \<open>while\<close> loop of \<open>extract_letter_entries\<close> at \<open>u\<close>.\<close>

definition crawl_step :: "network \<Rightarrow> string \<Rightarrow> string \<Rightarrow> crawl_state \<Rightarrow> step_result" where
  "crawl_step net letter u s =
     (let r = net (clock s) u;
          s1 = s\<lparr>clock := clock s + 1,
                 trace := trace s @ [Progress letter u, Fetch u r]\<rparr>
      in case r of
           Raised e \<Rightarrow> Stop (Excepted e) s1
         | Response code content \<Rightarrow>
             if code = 200 then
               (case extract_page_entries content of
                  Inl e \<Rightarrow> Stop (Excepted e) s1
                | Inr es \<Rightarrow>
                    (case get_next content of
                       Inl e \<Rightarrow> Stop (Excepted e) (s1\<lparr>pages := pages s1 @ [es]\<rparr>)
                     | Inr nxt \<Rightarrow>
                         Continue (s1\<lparr>pages := pages s1 @ [es], url := nxt, attempt := 0\<rparr>)))
             else
               (let s2 = s1\<lparr>attempt := attempt s1 + 1,
                              trace := trace s1 @ [Print letter code]\<rparr>
                in if attempt s2 > MAX_ATTEMPTS then Stop Abandoned s2
                   else Continue (s2\<lparr>trace := trace s2 @ [Sleep (DELAY * attempt s2)]\<rparr>)))"

text \<open>The \<open>while url:\<close> loop. The fuel bounds the number of iterations; \<open>None\<close>
  is a loop that has not ended within the fuel.\<close>

fun crawl_loop :: "nat \<Rightarrow> network \<Rightarrow> string \<Rightarrow> crawl_state \<Rightarrow> (outcome \<times> crawl_state) option" where
  "crawl_loop 0 net letter s = None"
| "crawl_loop (Suc fuel) net letter s =
     (case url s of
        None \<Rightarrow> Some (Exhausted, s)
      | Some u \<Rightarrow>
          if u = [] then Some (Exhausted, s)
          else (case crawl_step net letter u s of
                  Stop out s' \<Rightarrow> Some (out, s')
                | Continue s' \<Rightarrow> crawl_loop fuel net letter s'))"

definition initial_state :: "string \<Rightarrow> crawl_state" where
  "initial_state letter =
     \<lparr>url = Some (API letter), attempt = 0, pages = [], clock = 0, trace = []\<rparr>"

definition extract_letter_entries :: "nat \<Rightarrow> network \<Rightarrow> string \<Rightarrow> (outcome \<times> crawl_state) option" where
  "extract_letter_entries fuel net letter = crawl_loop fuel net letter (initial_state letter)"

text \<open>The state of the loop after \<open>k\<close> iterations; \<open>None\<close> when the loop has ended
  before.\<close>

fun crawl_state_after :: "nat \<Rightarrow> network \<Rightarrow> string \<Rightarrow> crawl_state \<Rightarrow> crawl_state option" where
  "crawl_state_after 0 net letter s = Some s"
| "crawl_state_after (Suc k) net letter s =
     (case url s of
        None \<Rightarrow> None
      | Some u \<Rightarrow>
          if u = [] then None
          else (case crawl_step net letter u s of
                  Stop out s' \<Rightarrow> None
                | Continue s' \<Rightarrow> crawl_state_after k net letter s'))"

text \<open>Projections of the trace: the fetches made, and the sleeps taken.\<close>

fun fetches :: "event list \<Rightarrow> (string \<times> fetch_result) list" where
  "fetches [] = []"
| "fetches (Fetch u r # evs) = (u, r) # fetches evs"
| "fetches (_ # evs) = fetches evs"

fun sleeps :: "event list \<Rightarrow> nat list" where
  "sleeps [] = []"
| "sleeps (Sleep n # evs) = n # sleeps evs"
| "sleeps (_ # evs) = sleeps evs"

section \<open>Merge and write\<close>

text \<open>
  Python leaves the iteration order of a set open (it follows the hashes of the elements,
  which change from one process to the next). The order is a parameter: the elements
  come out by increasing \<open>rank\<close>.
\<close>

definition set_iter :: "(string \<Rightarrow> nat) \<Rightarrow> string list \<Rightarrow> string list" where
  "set_iter rank xs = sort_key rank (remdups xs)"

text \<open>
  The lines \<open>all_data\<close> that \<open>download_letter_entries\<close> writes: \<open>prior\<close> is the text of
  the letter's file (\<open>None\<close> when opening it raises \<open>FileNotFoundError\<close>) and
  \<open>entries\<close> the chained pages of the crawl.
\<close>

definition all_data :: "(string \<Rightarrow> nat) \<Rightarrow> bool \<Rightarrow> string option \<Rightarrow> string list \<Rightarrow> string list" where
  "all_data rank remove_dead prior entries =
     (if remove_dead then entries
      else (case prior of
              Some text \<Rightarrow>
                (let old_data = map strip (readlines text)
                 in sort_key casefold (set_iter rank (old_data @ entries)))
            | None \<Rightarrow> entries))"

text \<open>\<open>"\n".join(all_data) + "\n"\<close>\<close>

definition file_text :: "string list \<Rightarrow> string" where
  "file_text lines = join [LF] lines @ [LF]"

type_synonym filesystem = "string \<rightharpoonup> string"

text \<open>
  What the disk refuses. \<open>read_error p\<close> is the exception, if any, that opening, reading
  or decoding the existing file \<open>p\<close> raises; \<open>write_error p\<close> is the exception, if any,
  that opening \<open>p\<close> for writing raises (\<open>FileNotFoundError\<close> when its directory is
  missing). A file that does not exist raises \<open>FileNotFoundError\<close> when it is opened
  for reading.
\<close>

record io_errors =
  read_error :: "string \<Rightarrow> py_error option"
  write_error :: "string \<Rightarrow> py_error option"

definition no_io_errors :: io_errors where
  "no_io_errors = \<lparr>read_error = (\<lambda>p. None), write_error = (\<lambda>p. None)\<rparr>"

text \<open>The \<open>with open(file, "w")\<close> block: it is outside the \<open>try\<close>, so its exception
  ends the task, and nothing is written then.\<close>

definition write_lines ::
  "io_errors \<Rightarrow> filesystem \<Rightarrow> string \<Rightarrow> string list \<Rightarrow> (py_error + filesystem) option" where
  "write_lines io fs path lines =
     (case write_error io path of
        Some e \<Rightarrow> Some (Inl e)
      | None \<Rightarrow> Some (Inr (fs(path \<mapsto> file_text lines))))"

text \<open>
  \<open>file\<close> is the path template as the map from a letter to the path that
  \<open>file.format(letter)\<close> gives. The result is \<open>None\<close> when the crawl has not ended
  within the fuel, \<open>Inl e\<close> when the task raised \<open>e\<close> (nothing is written then), and
  the file system after the write otherwise. The prior file is read only without
  \<open>remove_dead\<close>; of the exceptions of the \<open>try\<close> block only \<open>FileNotFoundError\<close> is
  caught, and \<open>all_data\<close> is the crawled entries then.
\<close>

definition download_letter_entries_io ::
  "io_errors \<Rightarrow> nat \<Rightarrow> network \<Rightarrow> (string \<Rightarrow> nat) \<Rightarrow> string \<Rightarrow> (string \<Rightarrow> string) \<Rightarrow> bool
     \<Rightarrow> filesystem \<Rightarrow> (py_error + filesystem) option" where
  "download_letter_entries_io io fuel net rank letter file remove_dead fs =
     (case extract_letter_entries fuel net letter of
        None \<Rightarrow> None
      | Some (Excepted e, s) \<Rightarrow> Some (Inl e)
      | Some (_, s) \<Rightarrow>
          (let path = file letter;
               entries = concat (pages s)
           in case (if remove_dead \<or> fs path = None then None else read_error io path) of
                Some e \<Rightarrow>
                  if e = FileNotFoundError then write_lines io fs path entries
                  else Some (Inl e)
              | None \<Rightarrow>
                  write_lines io fs path (all_data rank remove_dead (fs path) entries)))"

text \<open>The task on a disk that refuses nothing: a prior file, when there is one, can be
  read, and the path can be opened for writing.\<close>

definition download_letter_entries ::
  "nat \<Rightarrow> network \<Rightarrow> (string \<Rightarrow> nat) \<Rightarrow> string \<Rightarrow> (string \<Rightarrow> string) \<Rightarrow> bool \<Rightarrow> filesystem
     \<Rightarrow> (py_error + filesystem) option" where
  "download_letter_entries = download_letter_entries_io no_io_errors"

section \<open>The run over all letters\<close>

text \<open>
  Every letter is one task of the pool. A task that raised keeps its exception in its
  future, which nobody reads, so the run goes on. The tasks are modelled one after the
  other in the order of submission; \<open>nets l\<close> is the network as the task of \<open>l\<close>
  sees it.
\<close>

fun run_tasks ::
  "nat \<Rightarrow> (string \<Rightarrow> network) \<Rightarrow> (string \<Rightarrow> nat) \<Rightarrow> string list \<Rightarrow> (string \<Rightarrow> string) \<Rightarrow> bool
     \<Rightarrow> filesystem \<Rightarrow> filesystem option" where
  "run_tasks fuel nets rank [] file remove_dead fs = Some fs"
| "run_tasks fuel nets rank (l # ls) file remove_dead fs =
     (case download_letter_entries fuel (nets l) rank l file remove_dead fs of
        None \<Rightarrow> None
      | Some (Inl e) \<Rightarrow> run_tasks fuel nets rank ls file remove_dead fs
      | Some (Inr fs') \<Rightarrow> run_tasks fuel nets rank ls file remove_dead fs')"

text \<open>\<open>ThreadPoolExecutor\<close> raises \<open>ValueError\<close> when \<open>max_workers\<close> is not positive.\<close>

definition download_entries ::
  "nat \<Rightarrow> (string \<Rightarrow> network) \<Rightarrow> (string \<Rightarrow> nat) \<Rightarrow> string list \<Rightarrow> (string \<Rightarrow> string) \<Rightarrow> bool
     \<Rightarrow> int \<Rightarrow> filesystem \<Rightarrow> (py_error + filesystem) option" where
  "download_entries fuel nets rank letters file remove_dead max_workers fs =
     (if max_workers \<le> 0 then Some (Inl ValueError)
      else map_option Inr (run_tasks fuel nets rank letters file remove_dead fs))"

section \<open>Notions used to state the properties\<close>

text \<open>A response with a status other than 200: the \<open>else\<close> branch of the loop.\<close>
fun non200 :: "fetch_result \<Rightarrow> bool" where
  "non200 (Response code content) = (code \<noteq> 200)"
| "non200 (Raised e) = False"

text \<open>The status code of a response (0 for a fetch that raised).\<close>

fun status :: "fetch_result \<Rightarrow> nat" where
  "status (Response code content) = code"
| "status (Raised e) = 0"

text \<open>The value of the loop's \<open>url\<close> variable after \<open>u\<close> was fetched with
  result \<open>r\<close> (\<open>None\<close> also when the loop is left by an exception), and a log of
  fetches in which every fetch is of the url the one before it left.\<close>

definition next_url :: "string \<Rightarrow> fetch_result \<Rightarrow> string option" where
  "next_url u r =
     (case r of
        Raised e \<Rightarrow> None
      | Response code content \<Rightarrow>
          if code = 200 then (case get_next content of Inl e \<Rightarrow> None | Inr nxt \<Rightarrow> nxt)
          else Some u)"

fun follows :: "string option \<Rightarrow> (string \<times> fetch_result) list \<Rightarrow> bool" where
  "follows cur [] = True"
| "follows cur ((u, r) # rest) = (cur = Some u \<and> follows (next_url u r) rest)"

fun end_url :: "string option \<Rightarrow> (string \<times> fetch_result) list \<Rightarrow> string option" where
  "end_url cur [] = cur"
| "end_url cur ((u, r) # rest) = end_url (next_url u r) rest"

section \<open>Example inputs\<close>

definition first_page :: html where
  "first_page =
     \<lparr>word_lists = [[Some (Some ''b''), Some (Some ''a''), Some None, Some (Some ''b'')]],
      next_link = Some (Some ''/browse.php?character=A&page=2'')\<rparr>"

definition last_page :: html where
  "last_page = \<lparr>word_lists = [[Some (Some ''c'')]], next_link = None\<rparr>"

definition second_url :: string where
  "second_url = ''https://www.urbandictionary.com/browse.php?character=A&page=2''"

text \<open>The first page of a letter is served, every other page answers 503.\<close>

definition net_second_down :: network where
  "net_second_down t u = (if u = API ''A'' then Response 200 first_page else Response 503 last_page)"

text \<open>The second page answers 503 to the fetches 1, 2 and 3 and is served from then on.\<close>

definition net_flaky :: network where
  "net_flaky t u =
     (if u = API ''A'' then Response 200 first_page
      else if t < 4 then Response 503 last_page
      else Response 200 last_page)"

text \<open>The first page of a letter is served, the fetch of every other page raises.\<close>

definition net_second_raises :: network where
  "net_second_raises t u = (if u = API ''A'' then Response 200 first_page else Raised URLError)"

text \<open>Every fetch raises.\<close>

definition net_unreachable :: network where
  "net_unreachable t u = Raised URLError"

definition at_second_page :: crawl_state where
  "at_second_page =
     \<lparr>url = Some second_url, attempt = 0, pages = [[''b'', ''a'', ''b'']], clock = 1,
      trace = [Progress ''A'' (API ''A''), Fetch (API ''A'') (Response 200 first_page)]\<rparr>"

text \<open>The crawl of \<open>net_flaky\<close> after its fourth fetch.\<close>

definition second_page_again :: crawl_state where
  "second_page_again =
     \<lparr>url = Some second_url, attempt = 3, pages = [[''b'', ''a'', ''b'']], clock = 4,
      trace = [Progress ''A'' (API ''A''), Fetch (API ''A'') (Response 200 first_page),
               Progress ''A'' second_url, Fetch second_url (Response 503 last_page),
               Print ''A'' 503, Sleep 10,
               Progress ''A'' second_url, Fetch second_url (Response 503 last_page),
               Print ''A'' 503, Sleep 20,
               Progress ''A'' second_url, Fetch second_url (Response 503 last_page),
               Print ''A'' 503, Sleep 30]\<rparr>"

text \<open>The content of \<open>path\<close> after a task (\<open>None\<close> also when the task raised or did
  not end).\<close>

definition file_after :: "(py_error + filesystem) option \<Rightarrow> string \<Rightarrow> string option" where
  "file_after result path = (case result of Some (Inr fs) \<Rightarrow> fs path | _ \<Rightarrow> None)"

text \<open>The path template \<open>data/{0}.data\<close>, the default of the command line.\<close>

definition default_out :: "string \<Rightarrow> string" where
  "default_out letter = ''data/'' @ letter @ ''.data''"

definition only_page :: html where
  "only_page =
     \<lparr>word_lists = [[Some (Some ''b''), Some (Some ''a''), Some (Some ''b'')]],
      next_link = None\<rparr>"

text \<open>A letter of one page, and the state in which its crawl ends.\<close>

definition net_one_page :: network where
  "net_one_page t u = Response 200 only_page"

definition one_page_done :: crawl_state where
  "one_page_done =
     \<lparr>url = None, attempt = 0, pages = [[''b'', ''a'', ''b'']], clock = 1,
      trace = [Progress ''A'' (API ''A''), Fetch (API ''A'') (Response 200 only_page)]\<rparr>"

text \<open>A letter whose only page lists nothing.\<close>

definition empty_page :: html where
  "empty_page = \<lparr>word_lists = [[]], next_link = None\<rparr>"

definition net_empty_page :: network where
  "net_empty_page t u = Response 200 empty_page"

definition empty_page_done :: crawl_state where
  "empty_page_done =
     \<lparr>url = None, attempt = 0, pages = [[]], clock = 1,
      trace = [Progress ''A'' (API ''A''), Fetch (API ''A'') (Response 200 empty_page)]\<rparr>"

text \<open>A disk without the directory of the output files: no path can be opened for
  writing.\<close>

definition no_data_dir :: io_errors where
  "no_data_dir = \<lparr>read_error = (\<lambda>p. None), write_error = (\<lambda>p. Some FileNotFoundError)\<rparr>"

text \<open>A file system with a file of two lines for the letter A.\<close>

definition old_files :: filesystem where
  "old_files = [default_out ''A'' \<mapsto> ''cherry'' @ [LF] @ ''Apple'' @ [LF]]"

text \<open>The prior file and the fresh entries of the example in the specification.\<close>

definition apple_zeta :: string where
  "apple_zeta = ''apple'' @ [LF] @ ''zeta'' @ [LF]"

text \<open>An iteration order that puts the strings with an upper-case letter first.\<close>

definition upper_first :: "string \<Rightarrow> nat" where
  "upper_first s = (if casefold s = map of_char s then 1 else 0)"

text \<open>What the task of a letter, run alone on \<open>fs\<close>, leaves at the letter's path.\<close>

definition task_file ::
  "nat \<Rightarrow> network \<Rightarrow> (string \<Rightarrow> nat) \<Rightarrow> string \<Rightarrow> (string \<Rightarrow> string) \<Rightarrow> bool \<Rightarrow> filesystem
     \<Rightarrow> string option" where
  "task_file fuel net rank letter file remove_dead fs =
     (case download_letter_entries fuel net rank letter file remove_dead fs of
        Some (Inr fs') \<Rightarrow> fs' (file letter)
      | _ \<Rightarrow> fs (file letter))"

text \<open>Two letters: the second page of A is down for good, B has one page.\<close>

definition nets_ab :: "string \<Rightarrow> network" where
  "nets_ab l = (if l = ''A'' then net_second_down else net_one_page)"

section \<open>The steps of the crawl\<close>

lemma fetches_append: "fetches (xs @ ys) = fetches xs @ fetches ys"
  by (induction xs rule: fetches.induct) simp_all

lemma sleeps_append: "sleeps (xs @ ys) = sleeps xs @ sleeps ys"
  by (induction xs rule: sleeps.induct) simp_all

lemma crawl_step_raised:
  "net (clock s) u = Raised e \<Longrightarrow>
   crawl_step net letter u s =
     Stop (Excepted e)
       (s\<lparr>clock := clock s + 1, trace := trace s @ [Progress letter u, Fetch u (Raised e)]\<rparr>)"
  by (simp add: crawl_step_def Let_def)

lemma crawl_step_retry:
  "net (clock s) u = Response code content \<Longrightarrow> code \<noteq> 200 \<Longrightarrow> attempt s < MAX_ATTEMPTS \<Longrightarrow>
   crawl_step net letter u s =
     Continue
       (s\<lparr>clock := clock s + 1, attempt := attempt s + 1,
          trace := trace s @ [Progress letter u, Fetch u (Response code content),
                              Print letter code, Sleep (DELAY * (attempt s + 1))]\<rparr>)"
  by (simp add: crawl_step_def Let_def)

lemma crawl_step_ceiling:
  "net (clock s) u = Response code content \<Longrightarrow> code \<noteq> 200 \<Longrightarrow> MAX_ATTEMPTS \<le> attempt s \<Longrightarrow>
   crawl_step net letter u s =
     Stop Abandoned
       (s\<lparr>clock := clock s + 1, attempt := attempt s + 1,
          trace := trace s @ [Progress letter u, Fetch u (Response code content),
                              Print letter code]\<rparr>)"
  by (simp add: crawl_step_def Let_def)

lemma crawl_step_page:
  "net (clock s) u = Response 200 content \<Longrightarrow> extract_page_entries content = Inr es \<Longrightarrow>
   get_next content = Inr nxt \<Longrightarrow>
   crawl_step net letter u s =
     Continue
       (s\<lparr>clock := clock s + 1, attempt := 0, url := nxt, pages := pages s @ [es],
          trace := trace s @ [Progress letter u, Fetch u (Response 200 content)]\<rparr>)"
  by (simp add: crawl_step_def Let_def)

lemma crawl_loop_at:
  "url s = Some u \<Longrightarrow> u \<noteq> [] \<Longrightarrow>
   crawl_loop (Suc fuel) net letter s =
     (case crawl_step net letter u s of
        Stop out s' \<Rightarrow> Some (out, s')
      | Continue s' \<Rightarrow> crawl_loop fuel net letter s')"
  by simp

lemma crawl_loop_done:
  "url s = None \<Longrightarrow> crawl_loop (Suc fuel) net letter s = Some (Exhausted, s)"
  by simp

text \<open>A streak of failures up to the ceiling.\<close>

lemma crawl_loop_down:
  assumes "url s = Some u" "u \<noteq> []" "attempt s \<le> MAX_ATTEMPTS"
      and "\<forall>i \<le> MAX_ATTEMPTS - attempt s. non200 (net (clock s + i) u)"
      and "MAX_ATTEMPTS - attempt s < fuel"
  shows "\<exists>s'. crawl_loop fuel net letter s = Some (Abandoned, s')
           \<and> clock s' = clock s + (MAX_ATTEMPTS + 1 - attempt s)
           \<and> pages s' = pages s
           \<and> map fst (fetches (trace s')) =
               map fst (fetches (trace s)) @ replicate (MAX_ATTEMPTS + 1 - attempt s) u"
  using assms
proof (induction fuel arbitrary: s)
  case 0
  then show ?case by simp
next
  case (Suc fuel)
  from Suc.prems(4) have "non200 (net (clock s) u)"
    by (metis add.right_neutral le0)
  then obtain code content where r: "net (clock s) u = Response code content" "code \<noteq> 200"
    by (cases "net (clock s) u") auto
  show ?case
  proof (cases "attempt s < MAX_ATTEMPTS")
    case True
    let ?s1 = "s\<lparr>clock := clock s + 1, attempt := attempt s + 1,
          trace := trace s @ [Progress letter u, Fetch u (Response code content),
                              Print letter code, Sleep (DELAY * (attempt s + 1))]\<rparr>"
    have step: "crawl_loop (Suc fuel) net letter s = crawl_loop fuel net letter ?s1"
      using Suc.prems(1,2) r True by (simp add: crawl_step_retry)
    have down: "\<forall>i \<le> MAX_ATTEMPTS - attempt ?s1. non200 (net (clock ?s1 + i) u)"
    proof (intro allI impI)
      fix i assume "i \<le> MAX_ATTEMPTS - attempt ?s1"
      then have "Suc i \<le> MAX_ATTEMPTS - attempt s" using True by simp
      then have "non200 (net (clock s + Suc i) u)" using Suc.prems(4) by blast
      then show "non200 (net (clock ?s1 + i) u)" by simp
    qed
    have "\<exists>s'. crawl_loop fuel net letter ?s1 = Some (Abandoned, s')
           \<and> clock s' = clock ?s1 + (MAX_ATTEMPTS + 1 - attempt ?s1)
           \<and> pages s' = pages ?s1
           \<and> map fst (fetches (trace s')) =
               map fst (fetches (trace ?s1)) @ replicate (MAX_ATTEMPTS + 1 - attempt ?s1) u"
      using Suc.prems(1,2,5) True down by (intro Suc.IH) simp_all
    then obtain s' where s': "crawl_loop fuel net letter ?s1 = Some (Abandoned, s')"
        "clock s' = clock ?s1 + (MAX_ATTEMPTS + 1 - attempt ?s1)"
        "pages s' = pages ?s1"
        "map fst (fetches (trace s')) =
               map fst (fetches (trace ?s1)) @ replicate (MAX_ATTEMPTS + 1 - attempt ?s1) u"
      by blast
    have n: "MAX_ATTEMPTS + 1 - attempt s = Suc (MAX_ATTEMPTS + 1 - attempt ?s1)"
      using True by simp
    show ?thesis
      using s' step True unfolding n
      by (simp add: fetches_append replicate_append_same)
  next
    case False
    with Suc.prems(3) have eq: "attempt s = MAX_ATTEMPTS" by simp
    show ?thesis
      using Suc.prems(1,2) r eq by (simp add: crawl_step_ceiling fetches_append)
  qed
qed

lemma follows_snoc:
  "follows cur (log @ [(u, r)]) \<longleftrightarrow> follows cur log \<and> end_url cur log = Some u"
  by (induction cur log rule: follows.induct) auto

lemma end_url_snoc: "end_url cur (log @ [(u, r)]) = next_url u r"
  by (induction cur log rule: end_url.induct) auto

lemma crawl_step_follows:
  assumes "follows start (fetches (trace s))" "end_url start (fetches (trace s)) = url s"
      and "url s = Some u"
  shows "case crawl_step net letter u s of
           Stop out s' \<Rightarrow> follows start (fetches (trace s'))
         | Continue s' \<Rightarrow> follows start (fetches (trace s'))
                           \<and> end_url start (fetches (trace s')) = url s'"
  using assms
  by (auto simp: crawl_step_def Let_def fetches_append follows_snoc end_url_snoc next_url_def
           split: fetch_result.splits sum.splits)

lemma crawl_loop_follows:
  assumes "crawl_loop fuel net letter s = Some (out, s')"
      and "follows start (fetches (trace s))" "end_url start (fetches (trace s)) = url s"
  shows "follows start (fetches (trace s'))"
  using assms
proof (induction fuel arbitrary: s)
  case 0
  then show ?case by simp
next
  case (Suc fuel)
  show ?case
  proof (cases "url s")
    case None
    with Suc.prems show ?thesis by simp
  next
    case (Some u)
    show ?thesis
    proof (cases "u = []")
      case True
      with Some Suc.prems show ?thesis by simp
    next
      case False
      note step = crawl_step_follows [OF Suc.prems(2,3) Some, of net letter]
      show ?thesis
      proof (cases "crawl_step net letter u s")
        case (Continue s1)
        with step Suc.prems(1) Some False show ?thesis
          by (auto intro: Suc.IH)
      next
        case (Stop out1 s1)
        with step Suc.prems(1) Some False show ?thesis by auto
      qed
    qed
  qed
qed

lemma extract_letter_entries_follows:
  "extract_letter_entries fuel net letter = Some (out, s') \<Longrightarrow>
   follows (Some (API letter)) (fetches (trace s'))"
  unfolding extract_letter_entries_def
  by (erule crawl_loop_follows) (simp_all add: initial_state_def)

lemma get_next_nonempty: "get_next content = Inr (Some u) \<Longrightarrow> u \<noteq> []"
  by (auto simp: get_next_def split: option.splits)

section \<open>Evaluation of the examples\<close>

lemma crawl_loop_unfold:
  "0 < fuel \<Longrightarrow> crawl_loop fuel net letter s =
     (case url s of
        None \<Rightarrow> Some (Exhausted, s)
      | Some u \<Rightarrow>
          if u = [] then Some (Exhausted, s)
          else (case crawl_step net letter u s of
                  Stop out s' \<Rightarrow> Some (out, s')
                | Continue s' \<Rightarrow> crawl_loop (fuel - 1) net letter s'))"
  by (cases fuel) (simp_all split: option.split step_result.split)

lemmas example_defs =
  first_page_def last_page_def second_url_def net_second_down_def net_flaky_def
  net_unreachable_def at_second_page_def API_def

lemmas crawl_eval =
  extract_letter_entries_def initial_state_def crawl_loop_unfold crawl_step_def Let_def
  extract_page_entries_def get_next_def MAX_ATTEMPTS_def DELAY_def

lemma first_page_results:
  "extract_page_entries first_page = Inr [''b'', ''a'', ''b'']"
  "get_next first_page = Inr (Some second_url)"
  by (simp_all add: first_page_def second_url_def extract_page_entries_def get_next_def)

lemma last_page_results:
  "extract_page_entries last_page = Inr [''c'']"
  "get_next last_page = Inr None"
  by (simp_all add: last_page_def extract_page_entries_def get_next_def)

section \<open>The retry ceiling\<close>

text \<open>
  C3. A page whose every fetch returns a status other than 200 ends the crawl of its letter
  after exactly \<open>MAX_ATTEMPTS + 1 = 11\<close> fetches of that page: from the first page of the
  letter or any other state whose attempt counter is 0, and also when the page is reached
  from a page that was served, whatever the attempt counter was before that page was
  served (the budget is per page).
\<close>

theorem retry_ceiling:
  assumes "u \<noteq> []" and "\<forall>t. non200 (net t u)" and "MAX_ATTEMPTS < fuel"
  shows "(url s = Some u \<and> attempt s = 0 \<longrightarrow>
            (\<exists>s'. crawl_loop fuel net letter s = Some (Abandoned, s')
                \<and> clock s' = clock s + 11 \<and> pages s' = pages s
                \<and> map fst (fetches (trace s')) = map fst (fetches (trace s)) @ replicate 11 u))
       \<and> (url s0 = Some v \<and> v \<noteq> [] \<and> net (clock s0) v = Response 200 content
            \<and> extract_page_entries content = Inr es \<and> get_next content = Inr (Some u) \<longrightarrow>
            (\<exists>s'. crawl_loop (Suc fuel) net letter s0 = Some (Abandoned, s')
                \<and> clock s' = clock s0 + 12 \<and> pages s' = pages s0 @ [es]
                \<and> map fst (fetches (trace s')) =
                    map fst (fetches (trace s0)) @ v # replicate 11 u))"
proof (intro conjI impI)
  assume a: "url s = Some u \<and> attempt s = 0"
  have "\<exists>s'. crawl_loop fuel net letter s = Some (Abandoned, s')
           \<and> clock s' = clock s + (MAX_ATTEMPTS + 1 - attempt s)
           \<and> pages s' = pages s
           \<and> map fst (fetches (trace s')) =
               map fst (fetches (trace s)) @ replicate (MAX_ATTEMPTS + 1 - attempt s) u"
    using a assms by (intro crawl_loop_down) simp_all
  then show "\<exists>s'. crawl_loop fuel net letter s = Some (Abandoned, s')
                \<and> clock s' = clock s + 11 \<and> pages s' = pages s
                \<and> map fst (fetches (trace s')) = map fst (fetches (trace s)) @ replicate 11 u"
    using a by (simp add: MAX_ATTEMPTS_def)
next
  assume b: "url s0 = Some v \<and> v \<noteq> [] \<and> net (clock s0) v = Response 200 content
            \<and> extract_page_entries content = Inr es \<and> get_next content = Inr (Some u)"
  let ?s1 = "s0\<lparr>clock := clock s0 + 1, attempt := 0, url := Some u, pages := pages s0 @ [es],
          trace := trace s0 @ [Progress letter v, Fetch v (Response 200 content)]\<rparr>"
  have step: "crawl_loop (Suc fuel) net letter s0 = crawl_loop fuel net letter ?s1"
    using b by (simp add: crawl_step_page)
  have "\<exists>s'. crawl_loop fuel net letter ?s1 = Some (Abandoned, s')
           \<and> clock s' = clock ?s1 + (MAX_ATTEMPTS + 1 - attempt ?s1)
           \<and> pages s' = pages ?s1
           \<and> map fst (fetches (trace s')) =
               map fst (fetches (trace ?s1)) @ replicate (MAX_ATTEMPTS + 1 - attempt ?s1) u"
    using assms by (intro crawl_loop_down) simp_all
  then show "\<exists>s'. crawl_loop (Suc fuel) net letter s0 = Some (Abandoned, s')
                \<and> clock s' = clock s0 + 12 \<and> pages s' = pages s0 @ [es]
                \<and> map fst (fetches (trace s')) =
                    map fst (fetches (trace s0)) @ v # replicate 11 u"
    unfolding step by (auto simp: MAX_ATTEMPTS_def fetches_append)
qed

theorem retry_ceiling_witness:
  "second_url \<noteq> [] \<and> (\<forall>t. non200 (net_second_down t second_url)) \<and> MAX_ATTEMPTS < 11
   \<and> url at_second_page = Some second_url \<and> attempt at_second_page = 0
   \<and> (\<exists>s'. crawl_loop 11 net_second_down ''A'' at_second_page = Some (Abandoned, s')
          \<and> clock s' = 12 \<and> pages s' = [[''b'', ''a'', ''b'']]
          \<and> map fst (fetches (trace s')) = API ''A'' # replicate 11 second_url)
   \<and> net_second_down 0 (API ''A'') = Response 200 first_page
   \<and> (\<exists>s'. extract_letter_entries 12 net_second_down ''A'' = Some (Abandoned, s')
          \<and> clock s' = 12 \<and> pages s' = [[''b'', ''a'', ''b'']]
          \<and> map fst (fetches (trace s')) = API ''A'' # replicate 11 second_url)"
proof -
  have h: "second_url \<noteq> []" "\<forall>t. non200 (net_second_down t second_url)" "MAX_ATTEMPTS < 11"
    by (simp_all add: second_url_def net_second_down_def API_def MAX_ATTEMPTS_def)
  have st: "url at_second_page = Some second_url \<and> attempt at_second_page = 0"
    by (simp add: at_second_page_def)
  have s0: "url (initial_state ''A'') = Some (API ''A'') \<and> API ''A'' \<noteq> []
      \<and> net_second_down (clock (initial_state ''A'')) (API ''A'') = Response 200 first_page
      \<and> extract_page_entries first_page = Inr [''b'', ''a'', ''b'']
      \<and> get_next first_page = Inr (Some second_url)"
    by (simp add: first_page_results initial_state_def net_second_down_def API_def)
  have n0: "net_second_down 0 (API ''A'') = Response 200 first_page"
    by (simp add: net_second_down_def)
  note inst = retry_ceiling [where u = second_url and net = net_second_down and fuel = 11
      and s = at_second_page and ?s0.0 = "initial_state ''A''" and v = "API ''A''"
      and content = first_page and es = "[''b'', ''a'', ''b'']" and letter = "''A''", OF h]
  show ?thesis
    using inst st s0 h n0
    by (simp add: extract_letter_entries_def at_second_page_def initial_state_def eval_nat_numeral)
qed

section \<open>The states of the loop\<close>

lemma crawl_state_after_loop:
  "crawl_state_after k net letter s = Some s' \<Longrightarrow>
   crawl_loop (k + fuel) net letter s = crawl_loop fuel net letter s'"
  by (induction k arbitrary: s) (auto split: option.splits if_splits step_result.splits)

lemma crawl_state_after_snoc:
  "crawl_state_after k net letter s = Some s1 \<Longrightarrow>
   crawl_state_after (Suc k) net letter s = crawl_state_after (Suc 0) net letter s1"
proof (induction k arbitrary: s)
  case 0
  then show ?case by simp
next
  case (Suc k)
  from Suc.prems obtain u s0 where u: "url s = Some u" "u \<noteq> []"
      "crawl_step net letter u s = Continue s0" "crawl_state_after k net letter s0 = Some s1"
    by (auto split: option.splits if_splits step_result.splits)
  have "crawl_state_after (Suc (Suc k)) net letter s = crawl_state_after (Suc k) net letter s0"
    using u(1,2,3) by simp
  also have "\<dots> = crawl_state_after (Suc 0) net letter s1"
    using u(4) by (rule Suc.IH)
  finally show ?case .
qed

lemma crawl_loop_not_ended:
  "crawl_state_after k net letter s = Some s' \<Longrightarrow> fuel \<le> k \<Longrightarrow>
   crawl_loop fuel net letter s = None"
proof (induction k arbitrary: s fuel)
  case 0
  then show ?case by simp
next
  case (Suc k)
  show ?case
  proof (cases fuel)
    case 0
    then show ?thesis by simp
  next
    case (Suc f)
    with Suc.prems Suc.IH [of _ f] show ?thesis
      by (auto split: option.splits if_splits step_result.splits)
  qed
qed

lemma crawl_step_trace:
  "crawl_step net letter u s = Continue s' \<or> crawl_step net letter u s = Stop out s' \<Longrightarrow>
   \<exists>evs. trace s' = trace s @ evs"
  by (auto simp: crawl_step_def Let_def split: fetch_result.splits sum.splits if_splits)

lemma crawl_loop_trace:
  "crawl_loop fuel net letter s = Some (out, sf) \<Longrightarrow> \<exists>evs. trace sf = trace s @ evs"
proof (induction fuel arbitrary: s)
  case 0
  then show ?case by simp
next
  case (Suc fuel)
  show ?case
  proof (cases "url s")
    case None
    with Suc.prems show ?thesis by simp
  next
    case (Some u)
    show ?thesis
    proof (cases "u = []")
      case True
      with Some Suc.prems show ?thesis by simp
    next
      case False
      show ?thesis
      proof (cases "crawl_step net letter u s")
        case (Continue s1)
        then obtain evs1 where 1: "trace s1 = trace s @ evs1"
          using crawl_step_trace [of net letter u s s1] by blast
        from Continue Some False Suc.prems have "crawl_loop fuel net letter s1 = Some (out, sf)"
          by simp
        from Suc.IH [OF this] obtain evs2 where "trace sf = trace s1 @ evs2"
          by blast
        with 1 show ?thesis by simp
      next
        case (Stop out1 s1)
        with Some False Suc.prems have "s1 = sf" by simp
        with Stop show ?thesis
          using crawl_step_trace [of net letter u s sf out1] by blast
      qed
    qed
  qed
qed

lemma crawl_loop_trace_after:
  assumes "crawl_state_after k net letter s = Some s'"
      and "crawl_loop fuel net letter s = Some (out, sf)"
  shows "\<exists>evs. trace sf = trace s' @ evs"
proof (cases "fuel \<le> k")
  case True
  with assms show ?thesis by (simp add: crawl_loop_not_ended)
next
  case False
  then have "fuel = k + (fuel - k)" by simp
  then have "crawl_loop fuel net letter s = crawl_loop (fuel - k) net letter s'"
    using crawl_state_after_loop [OF assms(1), of "fuel - k"] by simp
  with assms(2) show ?thesis by (simp add: crawl_loop_trace)
qed

text \<open>Every crawl that ends went through the states of \<open>crawl_state_after\<close> and ended
  in the iteration after the last of them.\<close>

lemma crawl_loop_ends:
  "crawl_loop fuel net letter s = Some r \<Longrightarrow>
   \<exists>k < fuel. \<exists>s'. crawl_state_after k net letter s = Some s'
      \<and> crawl_loop (Suc 0) net letter s' = Some r"
proof (induction fuel arbitrary: s)
  case 0
  then show ?case by simp
next
  case (Suc fuel)
  show ?case
  proof (cases "\<exists>u s1. url s = Some u \<and> u \<noteq> [] \<and> crawl_step net letter u s = Continue s1")
    case True
    then obtain u s1 where u: "url s = Some u" "u \<noteq> []" "crawl_step net letter u s = Continue s1"
      by blast
    with Suc.prems have "crawl_loop fuel net letter s1 = Some r"
      by simp
    from Suc.IH [OF this] obtain k s' where k: "k < fuel"
        "crawl_state_after k net letter s1 = Some s'" "crawl_loop (Suc 0) net letter s' = Some r"
      by blast
    have "crawl_state_after (Suc k) net letter s = Some s'"
      using u k(2) by simp
    with k(1,3) show ?thesis
      by (intro exI [of _ "Suc k"] exI [of _ s']) simp
  next
    case False
    with Suc.prems have "crawl_loop (Suc 0) net letter s = Some r"
      by (auto split: option.splits if_splits step_result.splits)
    then show ?thesis
      by (intro exI [of _ 0] exI [of _ s]) simp
  qed
qed

text \<open>The sleeps and the fetches among the events of a streak of retries of the page
  \<open>u\<close>.\<close>

lemma sleeps_retries:
  "sleeps (concat (map (\<lambda>k. [Progress letter u, Fetch u (f k), Print letter (g k), Sleep (h k)]) ks))
   = map h ks"
  by (induction ks) simp_all

lemma fetches_retries:
  "map fst (fetches (concat (map (\<lambda>k. [Progress letter u, Fetch u (f k), Print letter (g k), Sleep (h k)]) ks)))
   = replicate (length ks) u"
  by (induction ks) simp_all

lemma crawl_state_after_retries:
  assumes "url s = Some u" "u \<noteq> []" "attempt s + n \<le> MAX_ATTEMPTS"
      and "\<forall>i < n. non200 (net (clock s + i) u)"
  shows "\<exists>s'. crawl_state_after n net letter s = Some s'
           \<and> url s' = Some u \<and> attempt s' = attempt s + n \<and> clock s' = clock s + n
           \<and> pages s' = pages s
           \<and> trace s' = trace s @ concat (map (\<lambda>k.
                 [Progress letter u, Fetch u (net (clock s + k) u),
                  Print letter (status (net (clock s + k) u)),
                  Sleep (DELAY * (attempt s + Suc k))]) [0..<n])"
  using assms
proof (induction n)
  case 0
  then show ?case by simp
next
  case (Suc n)
  then obtain s1 where s1: "crawl_state_after n net letter s = Some s1"
      "url s1 = Some u" "attempt s1 = attempt s + n" "clock s1 = clock s + n" "pages s1 = pages s"
      "trace s1 = trace s @ concat (map (\<lambda>k.
                 [Progress letter u, Fetch u (net (clock s + k) u),
                  Print letter (status (net (clock s + k) u)),
                  Sleep (DELAY * (attempt s + Suc k))]) [0..<n])"
    by force
  from Suc.prems(4) have "non200 (net (clock s1) u)"
    using s1(4) by simp
  then obtain code content where r: "net (clock s1) u = Response code content" "code \<noteq> 200"
    by (cases "net (clock s1) u") auto
  let ?s2 = "s1\<lparr>clock := clock s1 + 1, attempt := attempt s1 + 1,
          trace := trace s1 @ [Progress letter u, Fetch u (Response code content),
                              Print letter code, Sleep (DELAY * (attempt s1 + 1))]\<rparr>"
  have lt: "attempt s1 < MAX_ATTEMPTS"
    using Suc.prems(3) s1(3) by simp
  have r': "net (clock s + n) u = Response code content"
    using r(1) s1(4) by simp
  have "crawl_state_after (Suc 0) net letter s1 = Some ?s2"
    using s1(2) Suc.prems(2) r lt by (simp add: crawl_step_retry)
  then have a: "crawl_state_after (Suc n) net letter s = Some ?s2"
    using crawl_state_after_snoc [OF s1(1)] by simp
  have tr: "trace ?s2 = trace s @ concat (map (\<lambda>k.
                 [Progress letter u, Fetch u (net (clock s + k) u),
                  Print letter (status (net (clock s + k) u)),
                  Sleep (DELAY * (attempt s + Suc k))]) [0..<Suc n])"
    using s1(3,6) by (simp add: r')
  have "crawl_state_after (Suc n) net letter s = Some ?s2
           \<and> url ?s2 = Some u \<and> attempt ?s2 = attempt s + Suc n \<and> clock ?s2 = clock s + Suc n
           \<and> pages ?s2 = pages s
           \<and> trace ?s2 = trace s @ concat (map (\<lambda>k.
                 [Progress letter u, Fetch u (net (clock s + k) u),
                  Print letter (status (net (clock s + k) u)),
                  Sleep (DELAY * (attempt s + Suc k))]) [0..<Suc n])"
    using s1(2,3,4,5) by (intro conjI a tr) simp_all
  then show ?case
    by (rule exI [of _ ?s2])
qed

section \<open>Linear backoff\<close>

text \<open>
  C4. When the first \<open>n \<le> MAX_ATTEMPTS\<close> fetches of a page fail with a status other
  than 200, the loop is, after these \<open>n\<close> iterations, at the same url with the attempt
  counter at \<open>n\<close>: each failed fetch was followed by its message and by a sleep of
  \<open>10 * k\<close> after the \<open>k\<close>-th failure, nothing but that page was fetched, and no page
  was added. Every crawl that ends has these events in its trace. A fetch with status 200
  that follows sets the counter back to 0, without any sleep.
\<close>

theorem linear_backoff:
  assumes "url s = Some u" and "u \<noteq> []" and "attempt s = 0" and "n \<le> MAX_ATTEMPTS"
      and "\<forall>i < n. non200 (net (clock s + i) u)"
  shows "\<exists>s'. (\<forall>fuel. crawl_loop (n + fuel) net letter s = crawl_loop fuel net letter s')
           \<and> url s' = Some u \<and> attempt s' = n \<and> clock s' = clock s + n
           \<and> pages s' = pages s
           \<and> sleeps (trace s') = sleeps (trace s) @ map (\<lambda>k. 10 * k) [1..<Suc n]
           \<and> map fst (fetches (trace s')) = map fst (fetches (trace s)) @ replicate n u
           \<and> (\<forall>content es nxt.
                 net (clock s') u = Response 200 content
                 \<and> extract_page_entries content = Inr es \<and> get_next content = Inr nxt \<longrightarrow>
                 (\<exists>s''. crawl_step net letter u s' = Continue s''
                     \<and> attempt s'' = 0 \<and> url s'' = nxt
                     \<and> sleeps (trace s'') = sleeps (trace s')))
           \<and> crawl_state_after n net letter s = Some s'
           \<and> trace s' = trace s @ concat (map (\<lambda>k.
                 [Progress letter u, Fetch u (net (clock s + k) u),
                  Print letter (status (net (clock s + k) u)),
                  Sleep (10 * Suc k)]) [0..<n])
           \<and> (\<forall>fuel out sf. crawl_loop fuel net letter s = Some (out, sf) \<longrightarrow>
                 (\<exists>evs. trace sf = trace s' @ evs))"
proof -
  have "\<exists>s'. crawl_state_after n net letter s = Some s'
           \<and> url s' = Some u \<and> attempt s' = attempt s + n \<and> clock s' = clock s + n
           \<and> pages s' = pages s
           \<and> trace s' = trace s @ concat (map (\<lambda>k.
                 [Progress letter u, Fetch u (net (clock s + k) u),
                  Print letter (status (net (clock s + k) u)),
                  Sleep (DELAY * (attempt s + Suc k))]) [0..<n])"
    using assms by (intro crawl_state_after_retries) simp_all
  then obtain s' where s': "crawl_state_after n net letter s = Some s'"
      "url s' = Some u" "attempt s' = n" "clock s' = clock s + n" "pages s' = pages s"
      "trace s' = trace s @ concat (map (\<lambda>k.
                 [Progress letter u, Fetch u (net (clock s + k) u),
                  Print letter (status (net (clock s + k) u)),
                  Sleep (10 * Suc k)]) [0..<n])"
    using assms(3) by (auto simp: DELAY_def)
  have loop: "\<forall>fuel. crawl_loop (n + fuel) net letter s = crawl_loop fuel net letter s'"
    using crawl_state_after_loop [OF s'(1)] by simp
  have "map (\<lambda>k. 10 * Suc k) [0..<n] = map (\<lambda>k. 10 * k) (map Suc [0..<n])"
    by simp
  also have "\<dots> = map (\<lambda>k. 10 * k) [1..<Suc n]"
    by (simp only: map_Suc_upt One_nat_def)
  finally have sl: "sleeps (trace s') = sleeps (trace s) @ map (\<lambda>k. 10 * k) [1..<Suc n]"
    by (simp add: s'(6) sleeps_append sleeps_retries)
  have fe: "map fst (fetches (trace s')) = map fst (fetches (trace s)) @ replicate n u"
    by (simp add: s'(6) fetches_append fetches_retries)
  have reset: "\<forall>content es nxt.
                 net (clock s') u = Response 200 content
                 \<and> extract_page_entries content = Inr es \<and> get_next content = Inr nxt \<longrightarrow>
                 (\<exists>s''. crawl_step net letter u s' = Continue s''
                     \<and> attempt s'' = 0 \<and> url s'' = nxt
                     \<and> sleeps (trace s'') = sleeps (trace s'))"
    by (simp add: crawl_step_page sleeps_append)
  have ended: "\<forall>fuel out sf. crawl_loop fuel net letter s = Some (out, sf) \<longrightarrow>
                 (\<exists>evs. trace sf = trace s' @ evs)"
    using crawl_loop_trace_after [OF s'(1)] by blast
  show ?thesis
    by (rule exI [of _ s']) (intro conjI loop s'(2,3,4,5) sl fe reset s'(1) s'(6) ended)
qed

theorem linear_backoff_witness:
  "url at_second_page = Some second_url \<and> second_url \<noteq> [] \<and> attempt at_second_page = 0
   \<and> 3 \<le> MAX_ATTEMPTS
   \<and> clock at_second_page = 1
   \<and> non200 (net_flaky 1 second_url) \<and> non200 (net_flaky 2 second_url)
   \<and> non200 (net_flaky 3 second_url)
   \<and> (\<exists>s'. (\<forall>fuel. crawl_loop (3 + fuel) net_flaky ''A'' at_second_page = crawl_loop fuel net_flaky ''A'' s')
           \<and> url s' = Some second_url \<and> attempt s' = 3 \<and> clock s' = clock at_second_page + 3
           \<and> pages s' = pages at_second_page
           \<and> sleeps (trace s') = sleeps (trace at_second_page) @ map (\<lambda>k. 10 * k) [1..<Suc 3]
           \<and> map fst (fetches (trace s')) = map fst (fetches (trace at_second_page)) @ replicate 3 second_url
           \<and> (\<forall>content es nxt.
                 net_flaky (clock s') second_url = Response 200 content
                 \<and> extract_page_entries content = Inr es \<and> get_next content = Inr nxt \<longrightarrow>
                 (\<exists>s''. crawl_step net_flaky ''A'' second_url s' = Continue s''
                     \<and> attempt s'' = 0 \<and> url s'' = nxt
                     \<and> sleeps (trace s'') = sleeps (trace s')))
           \<and> crawl_state_after 3 net_flaky ''A'' at_second_page = Some s'
           \<and> trace s' = trace at_second_page @ concat (map (\<lambda>k.
                 [Progress ''A'' second_url, Fetch second_url (net_flaky (clock at_second_page + k) second_url),
                  Print ''A'' (status (net_flaky (clock at_second_page + k) second_url)),
                  Sleep (10 * Suc k)]) [0..<3])
           \<and> (\<forall>fuel out sf. crawl_loop fuel net_flaky ''A'' at_second_page = Some (out, sf) \<longrightarrow>
                 (\<exists>evs. trace sf = trace s' @ evs)))
   \<and> crawl_state_after 3 net_flaky ''A'' at_second_page = Some second_page_again
   \<and> sleeps (trace second_page_again) = [10, 20, 30]
   \<and> (\<exists>s'. extract_letter_entries 6 net_flaky ''A'' = Some (Exhausted, s')
          \<and> attempt s' = 0 \<and> clock s' = 5 \<and> sleeps (trace s') = [10, 20, 30])"
proof -
  have h: "url at_second_page = Some second_url" "second_url \<noteq> []" "attempt at_second_page = 0"
      "3 \<le> MAX_ATTEMPTS" "\<forall>i < 3. non200 (net_flaky (clock at_second_page + i) second_url)"
    by (simp_all add: at_second_page_def second_url_def net_flaky_def API_def MAX_ATTEMPTS_def)
  have f: "clock at_second_page = 1" "non200 (net_flaky 1 second_url)"
      "non200 (net_flaky 2 second_url)" "non200 (net_flaky 3 second_url)"
    by (simp_all add: at_second_page_def second_url_def net_flaky_def API_def)
  note inst = linear_backoff [where s = at_second_page and u = second_url and n = 3
      and net = net_flaky and letter = "''A''", OF h]
  have after: "crawl_state_after 3 net_flaky ''A'' at_second_page = Some second_page_again"
    by (simp add: eval_nat_numeral crawl_step_def Let_def at_second_page_def
          second_page_again_def second_url_def net_flaky_def API_def MAX_ATTEMPTS_def DELAY_def)
  have sl: "sleeps (trace second_page_again) = [10, 20, 30]"
    by (simp add: second_page_again_def)
  have run: "\<exists>s'. extract_letter_entries 6 net_flaky ''A'' = Some (Exhausted, s')
          \<and> attempt s' = 0 \<and> clock s' = 5 \<and> sleeps (trace s') = [10, 20, 30]"
    by (simp add: crawl_eval example_defs)
  show ?thesis
    by (intro conjI h(1-4) f inst after sl run)
qed

section \<open>The end of the pagination\<close>

text \<open>
  C8. A page that is served with status 200 and has no next link ends the crawl: its
  entries, whatever they are, are the last page of the result, one more than the pages
  collected before, and nothing is fetched after it. In every crawl that ends, every
  fetch is of the url that the fetch before it left: the same url after a status other
  than 200, the next link of the page after a status 200; the first is of the letter's
  index url.
\<close>

theorem pagination_stops:
  assumes "url s = Some u" and "u \<noteq> []" and "net (clock s) u = Response 200 content"
      and "extract_page_entries content = Inr es" and "get_next content = Inr None"
  shows "(\<exists>s'. crawl_loop (Suc (Suc fuel)) net letter s = Some (Exhausted, s')
            \<and> pages s' = pages s @ [es] \<and> length (pages s') = length (pages s) + 1
            \<and> clock s' = clock s + 1
            \<and> fetches (trace s') = fetches (trace s) @ [(u, Response 200 content)])
       \<and> (\<forall>k out s'. extract_letter_entries k net letter = Some (out, s') \<longrightarrow>
            follows (Some (API letter)) (fetches (trace s')))"
proof (intro conjI allI impI)
  show "\<exists>s'. crawl_loop (Suc (Suc fuel)) net letter s = Some (Exhausted, s')
            \<and> pages s' = pages s @ [es] \<and> length (pages s') = length (pages s) + 1
            \<and> clock s' = clock s + 1
            \<and> fetches (trace s') = fetches (trace s) @ [(u, Response 200 content)]"
    using assms by (simp add: crawl_step_page fetches_append)
next
  fix k out s'
  assume "extract_letter_entries k net letter = Some (out, s')"
  then show "follows (Some (API letter)) (fetches (trace s'))"
    by (rule extract_letter_entries_follows)
qed

theorem pagination_stops_witness:
  "url second_page_again = Some second_url \<and> second_url \<noteq> []
   \<and> net_flaky (clock second_page_again) second_url = Response 200 last_page
   \<and> extract_page_entries last_page = Inr [''c''] \<and> get_next last_page = Inr None
   \<and> (\<exists>s'. crawl_loop 2 net_flaky ''A'' second_page_again = Some (Exhausted, s')
          \<and> pages s' = [[''b'', ''a'', ''b''], [''c'']] \<and> length (pages s') = 2
          \<and> clock s' = 5)
   \<and> (\<exists>s'. extract_letter_entries 6 net_flaky ''A'' = Some (Exhausted, s')
          \<and> pages s' = [[''b'', ''a'', ''b''], [''c'']]
          \<and> map fst (fetches (trace s')) =
               [API ''A'', second_url, second_url, second_url, second_url]
          \<and> follows (Some (API ''A'')) (fetches (trace s')))"
proof -
  have h: "url second_page_again = Some second_url" "second_url \<noteq> []"
      "net_flaky (clock second_page_again) second_url = Response 200 last_page"
      "extract_page_entries last_page = Inr [''c'']" "get_next last_page = Inr None"
    by (simp_all add: second_page_again_def second_url_def net_flaky_def API_def
          last_page_results)
  have c: "pages second_page_again = [[''b'', ''a'', ''b'']]" "clock second_page_again = 4"
    by (simp_all add: second_page_again_def)
  note inst = pagination_stops [where s = second_page_again and u = second_url
      and net = net_flaky and content = last_page and es = "[''c'']" and fuel = 0
      and letter = "''A''", OF h, unfolded c]
  from inst [THEN conjunct1] obtain s1 where s1:
      "crawl_loop (Suc (Suc 0)) net_flaky ''A'' second_page_again = Some (Exhausted, s1)
       \<and> pages s1 = [[''b'', ''a'', ''b'']] @ [[''c'']]
       \<and> length (pages s1) = length [[''b'', ''a'', ''b'']] + 1
       \<and> clock s1 = 4 + 1
       \<and> fetches (trace s1) =
           fetches (trace second_page_again) @ [(second_url, Response 200 last_page)]" ..
  have two: "Suc (Suc 0) = 2"
    by simp
  from s1 have "crawl_loop 2 net_flaky ''A'' second_page_again = Some (Exhausted, s1)
          \<and> pages s1 = [[''b'', ''a'', ''b''], [''c'']] \<and> length (pages s1) = 2
          \<and> clock s1 = 5"
    unfolding two by simp
  then have 1: "\<exists>s'. crawl_loop 2 net_flaky ''A'' second_page_again = Some (Exhausted, s')
          \<and> pages s' = [[''b'', ''a'', ''b''], [''c'']] \<and> length (pages s') = 2
          \<and> clock s' = 5" ..
  have "\<exists>s'. extract_letter_entries 6 net_flaky ''A'' = Some (Exhausted, s')
          \<and> pages s' = [[''b'', ''a'', ''b''], [''c'']]
          \<and> map fst (fetches (trace s')) =
               [API ''A'', second_url, second_url, second_url, second_url]"
    by (simp add: crawl_eval example_defs)
  then obtain s2 where s2: "extract_letter_entries 6 net_flaky ''A'' = Some (Exhausted, s2)
          \<and> pages s2 = [[''b'', ''a'', ''b''], [''c'']]
          \<and> map fst (fetches (trace s2)) =
               [API ''A'', second_url, second_url, second_url, second_url]" ..
  have "follows (Some (API ''A'')) (fetches (trace s2))"
    using inst [THEN conjunct2, rule_format, of 6 Exhausted s2] s2 [THEN conjunct1] .
  with s2 have "extract_letter_entries 6 net_flaky ''A'' = Some (Exhausted, s2)
          \<and> pages s2 = [[''b'', ''a'', ''b''], [''c'']]
          \<and> map fst (fetches (trace s2)) =
               [API ''A'', second_url, second_url, second_url, second_url]
          \<and> follows (Some (API ''A'')) (fetches (trace s2))"
    by (simp only: simp_thms)
  then have 2: "\<exists>s'. extract_letter_entries 6 net_flaky ''A'' = Some (Exhausted, s')
          \<and> pages s' = [[''b'', ''a'', ''b''], [''c'']]
          \<and> map fst (fetches (trace s')) =
               [API ''A'', second_url, second_url, second_url, second_url]
          \<and> follows (Some (API ''A'')) (fetches (trace s'))" ..
  show ?thesis
    using h 1 2 by (simp only: simp_thms)
qed

section \<open>The task of one letter\<close>

lemma download_letter_entries_raised:
  "extract_letter_entries fuel net letter = Some (Excepted e, s) \<Longrightarrow>
   download_letter_entries fuel net rank letter file remove_dead fs = Some (Inl e)"
  by (simp add: download_letter_entries_def download_letter_entries_io_def)

lemma download_letter_entries_written:
  "extract_letter_entries fuel net letter = Some (out, s) \<Longrightarrow> out = Exhausted \<or> out = Abandoned \<Longrightarrow>
   download_letter_entries fuel net rank letter file remove_dead fs =
     Some (Inr (fs(file letter \<mapsto>
       file_text (all_data rank remove_dead (fs (file letter)) (concat (pages s))))))"
  by (auto simp: download_letter_entries_def download_letter_entries_io_def write_lines_def
        no_io_errors_def Let_def)

section \<open>The merge\<close>

lemma set_set_iter: "set (set_iter rank xs) = set xs"
  by (simp add: set_iter_def)

lemma distinct_set_iter: "distinct (set_iter rank xs)"
  by (simp add: set_iter_def)

lemma all_data_replace: "all_data rank True prior entries = entries"
  by (simp add: all_data_def)

lemma all_data_no_prior: "all_data rank remove_dead None entries = entries"
  by (simp add: all_data_def)

lemma all_data_union:
  "all_data rank False (Some text) entries =
     sort_key casefold (set_iter rank (map strip (readlines text) @ entries))"
  by (simp add: all_data_def)

lemma all_data_union_sorted: "sorted (map casefold (all_data rank False (Some text) entries))"
  by (simp add: all_data_union)

lemma all_data_union_distinct: "distinct (all_data rank False (Some text) entries)"
  by (simp add: all_data_union distinct_set_iter)

lemma all_data_union_set:
  "set (all_data rank False (Some text) entries) = set (map strip (readlines text)) \<union> set entries"
  by (simp add: all_data_union set_set_iter)

text \<open>Every line of the text that is written ends with a line feed.\<close>

lemma join_lines: "lines \<noteq> [] \<Longrightarrow> join sep lines @ sep = concat (map (\<lambda>l. l @ sep) lines)"
  by (induction sep lines rule: join.induct) simp_all

lemma file_text_lines: "lines \<noteq> [] \<Longrightarrow> file_text lines = concat (map (\<lambda>l. l @ [LF]) lines)"
  by (simp add: file_text_def join_lines)

lemma file_text_Nil: "file_text [] = [LF]"
  by (simp add: file_text_def)

text \<open>A list sorted by a key that tells its elements apart is determined by its elements.\<close>

lemma sorted_key_unique:
  assumes "sorted (map f xs)" "distinct xs" "sorted (map f ys)" "distinct ys"
      and "set xs = set ys" "inj_on f (set xs)"
  shows "xs = ys"
proof -
  have "distinct (map f xs)" "distinct (map f ys)"
    using assms by (simp_all add: distinct_map)
  then have "map f xs = map f ys"
    using assms by (intro sorted_distinct_set_unique) simp_all
  then show ?thesis
    using assms(5,6) by (intro map_inj_on [of f]) simp_all
qed

text \<open>The crawls of the one-page examples.\<close>

lemma one_page_run: "extract_letter_entries 2 net_one_page ''A'' = Some (Exhausted, one_page_done)"
  by (simp add: crawl_eval net_one_page_def only_page_def one_page_done_def API_def)

lemma empty_page_run: "extract_letter_entries 2 net_empty_page ''A'' = Some (Exhausted, empty_page_done)"
  by (simp add: crawl_eval net_empty_page_def empty_page_def empty_page_done_def API_def)

lemmas merge_eval =
  all_data_def set_iter_def readlines_def strip_def isspace_def casefold_def casefold_char_def
  file_text_def LF_def CR_def

section \<open>Transport errors\<close>

lemma download_letter_entries_io_raised:
  "extract_letter_entries fuel net letter = Some (Excepted e, s) \<Longrightarrow>
   download_letter_entries_io io fuel net rank letter file remove_dead fs = Some (Inl e)"
  by (simp add: download_letter_entries_io_def)

text \<open>
  C2. A fetch that raises is not retried, at whatever point of the crawl it happens: the
  exception leaves the crawl after that one fetch, without a sleep, and the task of the
  letter ends with it and writes nothing, whatever pages were collected before. (Only a
  response with a status other than 200 is retried.)
\<close>

theorem transport_error_propagates:
  assumes "url s = Some u" and "u \<noteq> []" and "net (clock s) u = Raised e"
  shows "crawl_loop (Suc fuel) net letter s =
           Some (Excepted e,
                 s\<lparr>clock := clock s + 1,
                   trace := trace s @ [Progress letter u, Fetch u (Raised e)]\<rparr>)
       \<and> (s = initial_state letter \<longrightarrow>
            download_letter_entries (Suc fuel) net rank letter file remove_dead fs = Some (Inl e))
       \<and> (\<forall>k. crawl_state_after k net letter (initial_state letter) = Some s \<longrightarrow>
            extract_letter_entries (k + Suc fuel) net letter =
              Some (Excepted e,
                    s\<lparr>clock := clock s + 1,
                      trace := trace s @ [Progress letter u, Fetch u (Raised e)]\<rparr>)
            \<and> download_letter_entries_io io (k + Suc fuel) net rank letter file remove_dead fs
                = Some (Inl e)
            \<and> download_letter_entries (k + Suc fuel) net rank letter file remove_dead fs
                = Some (Inl e))"
proof -
  let ?s' = "s\<lparr>clock := clock s + 1,
                trace := trace s @ [Progress letter u, Fetch u (Raised e)]\<rparr>"
  have run: "crawl_loop (Suc fuel) net letter s = Some (Excepted e, ?s')"
    using assms by (simp add: crawl_step_raised)
  have first: "download_letter_entries (Suc fuel) net rank letter file remove_dead fs = Some (Inl e)"
    if "s = initial_state letter"
    using that run by (auto simp: extract_letter_entries_def intro: download_letter_entries_raised)
  have later: "extract_letter_entries (k + Suc fuel) net letter = Some (Excepted e, ?s')
            \<and> download_letter_entries_io io (k + Suc fuel) net rank letter file remove_dead fs
                = Some (Inl e)
            \<and> download_letter_entries (k + Suc fuel) net rank letter file remove_dead fs
                = Some (Inl e)"
    if k: "crawl_state_after k net letter (initial_state letter) = Some s" for k
  proof -
    have "extract_letter_entries (k + Suc fuel) net letter = crawl_loop (Suc fuel) net letter s"
      unfolding extract_letter_entries_def by (rule crawl_state_after_loop [OF k])
    then have e: "extract_letter_entries (k + Suc fuel) net letter = Some (Excepted e, ?s')"
      using run by simp
    show ?thesis
      using e download_letter_entries_io_raised [OF e] download_letter_entries_raised [OF e]
      by simp
  qed
  show ?thesis
    using run first later by blast
qed

theorem transport_error_propagates_witness:
  "url at_second_page = Some second_url \<and> second_url \<noteq> []
   \<and> net_second_raises (clock at_second_page) second_url = Raised URLError
   \<and> crawl_state_after 1 net_second_raises ''A'' (initial_state ''A'') = Some at_second_page
   \<and> pages at_second_page = [[''b'', ''a'', ''b'']]
   \<and> extract_letter_entries (1 + Suc 11) net_second_raises ''A'' =
       Some (Excepted URLError,
             at_second_page\<lparr>clock := clock at_second_page + 1,
               trace := trace at_second_page @
                 [Progress ''A'' second_url, Fetch second_url (Raised URLError)]\<rparr>)
   \<and> download_letter_entries_io no_data_dir (1 + Suc 11) net_second_raises length ''A''
        default_out False old_files = Some (Inl URLError)
   \<and> download_letter_entries (1 + Suc 11) net_second_raises length ''A''
        default_out False old_files = Some (Inl URLError)
   \<and> url (initial_state ''A'') = Some (API ''A'') \<and> API ''A'' \<noteq> []
   \<and> net_unreachable (clock (initial_state ''A'')) (API ''A'') = Raised URLError
   \<and> crawl_loop (Suc 11) net_unreachable ''A'' (initial_state ''A'') =
       Some (Excepted URLError,
             (initial_state ''A'')\<lparr>clock := clock (initial_state ''A'') + 1,
               trace := trace (initial_state ''A'') @
                 [Progress ''A'' (API ''A''), Fetch (API ''A'') (Raised URLError)]\<rparr>)
   \<and> download_letter_entries (Suc 11) net_unreachable length ''A'' default_out False old_files
       = Some (Inl URLError)"
proof -
  have h: "url at_second_page = Some second_url" "second_url \<noteq> []"
      "net_second_raises (clock at_second_page) second_url = Raised URLError"
    by (simp_all add: at_second_page_def second_url_def net_second_raises_def API_def)
  have after: "crawl_state_after 1 net_second_raises ''A'' (initial_state ''A'') = Some at_second_page"
    by (simp add: initial_state_def crawl_step_def Let_def net_second_raises_def
          first_page_results at_second_page_def second_url_def API_def)
  have p: "pages at_second_page = [[''b'', ''a'', ''b'']]"
    by (simp add: at_second_page_def)
  note inst = transport_error_propagates [where s = at_second_page and u = second_url
      and net = net_second_raises and e = URLError and fuel = 11 and letter = "''A''"
      and rank = length and ?file = default_out and remove_dead = False and fs = old_files
      and io = no_data_dir, OF h]
  note later = inst [THEN conjunct2, THEN conjunct2, rule_format, OF after]
  have g: "url (initial_state ''A'') = Some (API ''A'')" "API ''A'' \<noteq> []"
      "net_unreachable (clock (initial_state ''A'')) (API ''A'') = Raised URLError"
    by (simp_all add: initial_state_def API_def net_unreachable_def)
  note inst0 = transport_error_propagates [where s = "initial_state ''A''" and u = "API ''A''"
      and net = net_unreachable and e = URLError and fuel = 11 and letter = "''A''"
      and rank = length and ?file = default_out and remove_dead = False and fs = old_files
      and io = no_data_dir, OF g]
  note first = inst0 [THEN conjunct2, THEN conjunct1, rule_format, OF refl]
  show ?thesis
    by (intro conjI h after p later [THEN conjunct1] later [THEN conjunct2, THEN conjunct1]
          later [THEN conjunct2, THEN conjunct2] g inst0 [THEN conjunct1] first)
qed

theorem transport_error_not_retried:
  "extract_letter_entries 12 net_unreachable ''A'' =
     Some (Excepted URLError,
           \<lparr>url = Some (API ''A''), attempt = 0, pages = [], clock = 1,
            trace = [Progress ''A'' (API ''A''), Fetch (API ''A'') (Raised URLError)]\<rparr>)
   \<and> download_letter_entries 12 net_unreachable length ''A'' default_out False old_files
       = Some (Inl URLError)
   \<and> extract_letter_entries 12 net_second_raises ''A'' =
       Some (Excepted URLError,
             \<lparr>url = Some second_url, attempt = 0, pages = [[''b'', ''a'', ''b'']], clock = 2,
              trace = [Progress ''A'' (API ''A''), Fetch (API ''A'') (Response 200 first_page),
                       Progress ''A'' second_url, Fetch second_url (Raised URLError)]\<rparr>)
   \<and> download_letter_entries 12 net_second_raises length ''A'' default_out False old_files
       = Some (Inl URLError)"
  by (simp add: download_letter_entries_def download_letter_entries_io_def crawl_eval
        net_unreachable_def net_second_raises_def first_page_def second_url_def API_def)

section \<open>A letter without a file\<close>




section \<open>The output file\<close>

text \<open>
  C10. When the list of lines to write is empty, the file that is written holds exactly
  one line feed.
\<close>

theorem empty_output:
  assumes "extract_letter_entries fuel net letter = Some (out, s)"
      and "out = Exhausted \<or> out = Abandoned"
      and "all_data rank remove_dead (fs (file letter)) (concat (pages s)) = []"
  shows "download_letter_entries fuel net rank letter file remove_dead fs =
           Some (Inr (fs(file letter \<mapsto> [LF])))"
  using download_letter_entries_written [OF assms(1,2), of rank "file" remove_dead fs] assms(3)
  by (simp add: file_text_Nil)

theorem empty_output_witness:
  "extract_letter_entries 2 net_empty_page ''A'' = Some (Exhausted, empty_page_done)
   \<and> all_data length True (Map.empty (default_out ''A'')) (concat (pages empty_page_done)) = []
   \<and> download_letter_entries 2 net_empty_page length ''A'' default_out True Map.empty =
       Some (Inr [default_out ''A'' \<mapsto> [LF]])"
proof -
  have o: "Exhausted = Exhausted \<or> Exhausted = Abandoned"
    by simp
  have e: "all_data length True (Map.empty (default_out ''A'')) (concat (pages empty_page_done)) = []"
    by (simp add: all_data_def empty_page_done_def)
  note inst = empty_output [where fs = Map.empty and ?file = default_out
      and letter = "''A''" and rank = length and remove_dead = True, OF empty_page_run o e]
  show ?thesis
    using empty_page_run e inst by (simp only: simp_thms)
qed

text \<open>
  C1. When the crawl of a letter ends without an exception, its task writes the lines of
  \<open>all_data\<close>, each followed by a line feed (a single line feed when there is no line).
  With the Union policy and a prior file, the lines are sorted by their case-folded key,
  free of duplicates, and are the stripped lines of the prior file together with the
  entries of the crawl. With the Replace policy, or without a prior file, the lines are
  the entries of the crawl as crawled, page after page: neither sorted nor freed of
  duplicates.
\<close>

theorem output_file_format:
  assumes "extract_letter_entries fuel net letter = Some (out, s)"
      and "out = Exhausted \<or> out = Abandoned"
  shows "\<exists>lines.
           download_letter_entries fuel net rank letter file remove_dead fs =
             Some (Inr (fs(file letter \<mapsto> file_text lines)))
         \<and> file_text lines = (if lines = [] then [LF] else concat (map (\<lambda>l. l @ [LF]) lines))
         \<and> (\<forall>text. \<not> remove_dead \<and> fs (file letter) = Some text \<longrightarrow>
                sorted (map casefold lines) \<and> distinct lines
                \<and> set lines = set (map strip (readlines text)) \<union> set (concat (pages s)))
         \<and> (remove_dead \<or> fs (file letter) = None \<longrightarrow> lines = concat (pages s))"
proof -
  let ?lines = "all_data rank remove_dead (fs (file letter)) (concat (pages s))"
  have "download_letter_entries fuel net rank letter file remove_dead fs =
             Some (Inr (fs(file letter \<mapsto> file_text ?lines)))"
    using assms by (rule download_letter_entries_written)
  moreover have "file_text ?lines = (if ?lines = [] then [LF] else concat (map (\<lambda>l. l @ [LF]) ?lines))"
    by (simp add: file_text_Nil file_text_lines)
  moreover have "sorted (map casefold ?lines) \<and> distinct ?lines
                \<and> set ?lines = set (map strip (readlines old)) \<union> set (concat (pages s))"
    if "\<not> remove_dead \<and> fs (file letter) = Some old" for old
    using that all_data_union_sorted [of rank old "concat (pages s)"]
      all_data_union_distinct [of rank old "concat (pages s)"]
      all_data_union_set [of rank old "concat (pages s)"]
    by simp
  moreover have "?lines = concat (pages s)" if "remove_dead \<or> fs (file letter) = None"
    using that by (auto simp: all_data_def)
  ultimately show ?thesis
    by (intro exI [of _ ?lines]) blast
qed

theorem output_file_format_witness:
  "extract_letter_entries 2 net_one_page ''A'' = Some (Exhausted, one_page_done)
   \<and> (\<exists>lines.
         download_letter_entries 2 net_one_page length ''A'' default_out False old_files =
           Some (Inr (old_files(default_out ''A'' \<mapsto> file_text lines)))
       \<and> file_text lines = (if lines = [] then [LF] else concat (map (\<lambda>l. l @ [LF]) lines))
       \<and> (\<forall>text. \<not> False \<and> old_files (default_out ''A'') = Some text \<longrightarrow>
              sorted (map casefold lines) \<and> distinct lines
              \<and> set lines = set (map strip (readlines text)) \<union> set (concat (pages one_page_done)))
       \<and> (False \<or> old_files (default_out ''A'') = None \<longrightarrow> lines = concat (pages one_page_done)))
   \<and> old_files (default_out ''A'') = Some (''cherry'' @ [LF] @ ''Apple'' @ [LF])
   \<and> file_after (download_letter_entries 2 net_one_page length ''A'' default_out False old_files)
        (default_out ''A'')
       = Some (''a'' @ [LF] @ ''Apple'' @ [LF] @ ''b'' @ [LF] @ ''cherry'' @ [LF])"
proof -
  have o: "Exhausted = Exhausted \<or> Exhausted = Abandoned"
    by simp
  note inst = output_file_format [where rank = length and ?file = default_out
      and remove_dead = False and fs = old_files, OF one_page_run o]
  have p: "old_files (default_out ''A'') = Some (''cherry'' @ [LF] @ ''Apple'' @ [LF])"
    by (simp add: old_files_def)
  have lines: "all_data length False (old_files (default_out ''A'')) (concat (pages one_page_done))
      = [''a'', ''Apple'', ''b'', ''cherry'']"
    by (simp add: old_files_def one_page_done_def merge_eval)
  have "file_after (download_letter_entries 2 net_one_page length ''A'' default_out False old_files)
        (default_out ''A'')
       = Some (''a'' @ [LF] @ ''Apple'' @ [LF] @ ''b'' @ [LF] @ ''cherry'' @ [LF])"
    using download_letter_entries_written [OF one_page_run o, of length default_out False old_files]
    unfolding lines by (simp add: file_after_def file_text_def)
  then show ?thesis
    using one_page_run inst p by (simp only: simp_thms)
qed

theorem replace_output_unsorted:
  "file_after (download_letter_entries 2 net_one_page length ''A'' default_out True old_files)
     (default_out ''A'')
     = Some (''b'' @ [LF] @ ''a'' @ [LF] @ ''b'' @ [LF])
   \<and> file_after (download_letter_entries 2 net_one_page length ''A'' default_out False Map.empty)
       (default_out ''A'')
     = Some (''b'' @ [LF] @ ''a'' @ [LF] @ ''b'' @ [LF])
   \<and> \<not> sorted (map casefold [''b'', ''a'', ''b''])
   \<and> \<not> distinct [''b'', ''a'', ''b'']"
proof -
  have o: "Exhausted = Exhausted \<or> Exhausted = Abandoned"
    by simp
  have "file_after (download_letter_entries 2 net_one_page length ''A'' default_out True old_files)
     (default_out ''A'') = Some (''b'' @ [LF] @ ''a'' @ [LF] @ ''b'' @ [LF])"
    using download_letter_entries_written [OF one_page_run o, of length default_out True old_files]
    by (simp add: file_after_def all_data_def one_page_done_def file_text_def)
  moreover have "file_after (download_letter_entries 2 net_one_page length ''A'' default_out False Map.empty)
       (default_out ''A'') = Some (''b'' @ [LF] @ ''a'' @ [LF] @ ''b'' @ [LF])"
    using download_letter_entries_written [OF one_page_run o, of length default_out False Map.empty]
    by (simp add: file_after_def all_data_def one_page_done_def file_text_def)
  moreover have "\<not> sorted (map casefold [''b'', ''a'', ''b''])" "\<not> distinct [''b'', ''a'', ''b'']"
    by (simp_all add: casefold_def casefold_char_def)
  ultimately show ?thesis
    by (simp only: simp_thms)
qed

section \<open>The merge policies\<close>

lemma apple_zeta_lines: "map strip (readlines apple_zeta) = [''apple'', ''zeta'']"
  by (simp add: apple_zeta_def merge_eval)

text \<open>
  C5. The Replace policy gives the fresh entries as crawled, whatever the prior file; the
  Union policy, with a prior file, gives a list sorted by the case-folded key, free of
  duplicates, of the stripped lines of the prior file and the fresh entries. On the
  example of the specification: Replace gives apple, banana and Union gives apple,
  banana, zeta.
\<close>

theorem merge_policies:
  "all_data rank True prior fresh = fresh
   \<and> sorted (map casefold (all_data rank False (Some text) fresh))
   \<and> distinct (all_data rank False (Some text) fresh)
   \<and> set (all_data rank False (Some text) fresh) = set (map strip (readlines text)) \<union> set fresh
   \<and> all_data rank True (Some apple_zeta) [''apple'', ''banana''] = [''apple'', ''banana'']
   \<and> all_data rank False (Some apple_zeta) [''apple'', ''banana''] = [''apple'', ''banana'', ''zeta'']"
proof -
  let ?xs = "all_data rank False (Some apple_zeta) [''apple'', ''banana'']"
  have s: "set ?xs = set [''apple'', ''banana'', ''zeta'']"
    by (auto simp: all_data_union_set apple_zeta_lines)
  have "inj_on casefold (set [''apple'', ''banana'', ''zeta''])"
    by (simp add: casefold_def casefold_char_def)
  then have i: "inj_on casefold (set ?xs)"
    by (simp only: s)
  have "sorted (map casefold [''apple'', ''banana'', ''zeta''])" "distinct [''apple'', ''banana'', ''zeta'']"
    by (simp_all add: casefold_def casefold_char_def)
  then have "?xs = [''apple'', ''banana'', ''zeta'']"
    using all_data_union_sorted all_data_union_distinct s i
    by (intro sorted_key_unique [of casefold])
  then show ?thesis
    by (simp add: all_data_replace all_data_union_sorted all_data_union_distinct all_data_union_set)
qed

theorem replace_keeps_crawl_order:
  "all_data length True (Some apple_zeta) [''banana'', ''apple''] = [''banana'', ''apple'']
   \<and> \<not> sorted (map casefold (all_data length True (Some apple_zeta) [''banana'', ''apple'']))"
  by (simp add: all_data_def casefold_def casefold_char_def)

section \<open>Reading back what was written\<close>

lemma universal_newlines_id: "CR \<notin> set s \<Longrightarrow> universal_newlines s = s"
  by (induction s rule: universal_newlines.induct) auto

lemma universal_newlines_no_CR: "CR \<notin> set (universal_newlines s)"
  by (induction s rule: universal_newlines.induct) (auto simp: LF_def CR_def)

lemma split_lines_line:
  "LF \<notin> set x \<Longrightarrow> split_lines (x @ LF # rest) = (x @ [LF]) # split_lines rest"
  by (induction x) auto

lemma split_lines_concat:
  "\<forall>x \<in> set xs. LF \<notin> set x \<Longrightarrow>
   split_lines (concat (map (\<lambda>l. l @ [LF]) xs)) = map (\<lambda>l. l @ [LF]) xs"
  by (induction xs) (simp_all add: split_lines_line)

lemma readlines_file_text:
  assumes "xs \<noteq> []" and "\<forall>x \<in> set xs. LF \<notin> set x \<and> CR \<notin> set x"
  shows "readlines (file_text xs) = map (\<lambda>l. l @ [LF]) xs"
proof -
  have "CR \<notin> set (concat (map (\<lambda>l. l @ [LF]) xs))"
    using assms(2) by (auto simp: LF_def CR_def)
  then show ?thesis
    using assms by (simp add: readlines_def file_text_lines universal_newlines_id split_lines_concat)
qed

text \<open>Every line that is read is free of line feeds, but for one at its end.\<close>

lemma split_lines_shape:
  "l \<in> set (split_lines s) \<Longrightarrow> \<exists>b. LF \<notin> set b \<and> set b \<subseteq> set s \<and> (l = b \<or> l = b @ [LF])"
proof (induction s arbitrary: l)
  case Nil
  then show ?case by simp
next
  case (Cons c cs)
  show ?case
  proof (cases "c = LF")
    case True
    with Cons.prems have "l = [LF] \<or> l \<in> set (split_lines cs)"
      by simp
    then show ?thesis
    proof
      assume "l = [LF]"
      then show ?thesis by (intro exI [of _ "[]"]) simp
    next
      assume "l \<in> set (split_lines cs)"
      from Cons.IH [OF this] show ?thesis by auto
    qed
  next
    case False
    show ?thesis
    proof (cases "split_lines cs")
      case Nil
      with False Cons.prems have "l = [c]" by simp
      with False show ?thesis by (intro exI [of _ "[c]"]) simp
    next
      case (Cons l0 ls)
      with False Cons.prems have "l = c # l0 \<or> l \<in> set ls"
        by simp
      then show ?thesis
      proof
        assume l: "l = c # l0"
        have "l0 \<in> set (split_lines cs)" using Cons by simp
        from Cons.IH [OF this] obtain b where
          b: "LF \<notin> set b" "set b \<subseteq> set cs" "l0 = b \<or> l0 = b @ [LF]"
          by auto
        show ?thesis
          using b l False by (intro exI [of _ "c # b"]) auto
      next
        assume "l \<in> set ls"
        then have "l \<in> set (split_lines cs)" using Cons by simp
        from Cons.IH [OF this] show ?thesis by auto
      qed
    qed
  qed
qed

section \<open>Stripping\<close>

lemma isspace_LF: "isspace LF"
  by (simp add: isspace_def LF_def)

text \<open>Above ASCII: a no-break space at the end of a string is stripped, the sharp s folds
  to \<open>ss\<close>, the micro sign to the Greek mu, a capital letter to its small one.\<close>

lemma strip_no_break_space: "strip (''a'' @ [CHR 0xA0]) = ''a''"
  by (simp add: strip_def isspace_def)

lemma casefold_latin1:
  "casefold [CHR 0xDF] = casefold ''ss''"
  "casefold [CHR 0xB5] = [956]"
  "casefold [CHR 0xC0] = casefold [CHR 0xE0]"
  "casefold [CHR 0xD7] = [215]"
  by (simp_all add: casefold_def casefold_char_def)

lemma strip_snoc_space: "isspace c \<Longrightarrow> strip (x @ [c]) = strip x"
proof (cases "\<forall>a \<in> set x. isspace a")
  case True
  assume "isspace c"
  with True have "dropWhile isspace (x @ [c]) = []" "dropWhile isspace x = []"
    by (simp_all only: dropWhile_eq_Nil_conv) auto
  then show ?thesis by (simp only: strip_def)
next
  case False
  assume c: "isspace c"
  from False obtain a where "a \<in> set x" "\<not> isspace a"
    by blast
  then have "dropWhile isspace (x @ [c]) = dropWhile isspace x @ [c]"
    by (rule dropWhile_append1)
  then show ?thesis
    using c by (simp add: strip_def)
qed

lemma set_strip: "set (strip s) \<subseteq> set s"
proof -
  have "set (strip s) \<subseteq> set (dropWhile isspace s)"
    unfolding strip_def using set_dropWhileD [of _ isspace "rev (dropWhile isspace s)"] by auto
  also have "\<dots> \<subseteq> set s"
    using set_dropWhileD [of _ isspace s] by auto
  finally show ?thesis .
qed

lemma strip_ends:
  assumes "strip s \<noteq> []"
  shows "\<not> isspace (hd (strip s))" and "\<not> isspace (last (strip s))"
proof -
  let ?d = "dropWhile isspace s"
  let ?r = "dropWhile isspace (rev ?d)"
  have r: "?r \<noteq> []" using assms by (simp add: strip_def)
  then have "\<not> isspace (hd ?r)" by (rule hd_dropWhile)
  then show "\<not> isspace (last (strip s))"
    using r by (simp add: strip_def last_rev)
  have "rev ?d = takeWhile isspace (rev ?d) @ ?r" by simp
  then have "?d = rev ?r @ rev (takeWhile isspace (rev ?d))"
    by (metis rev_append rev_rev_ident)
  then have d: "?d = strip s @ rev (takeWhile isspace (rev ?d))"
    by (simp add: strip_def)
  then have "?d \<noteq> []" using assms by (metis Nil_is_append_conv)
  then have "\<not> isspace (hd ?d)" by (rule hd_dropWhile)
  moreover have "hd ?d = hd (strip s)"
    using d assms by (metis hd_append2)
  ultimately show "\<not> isspace (hd (strip s))" by simp
qed

lemma strip_id: "s = [] \<or> (\<not> isspace (hd s) \<and> \<not> isspace (last s)) \<Longrightarrow> strip s = s"
proof (cases "s = []")
  case True
  then show ?thesis by (simp add: strip_def)
next
  case False
  assume "s = [] \<or> (\<not> isspace (hd s) \<and> \<not> isspace (last s))"
  with False have e: "\<not> isspace (hd s)" "\<not> isspace (last s)" by simp_all
  have 1: "dropWhile isspace s = s"
    using e(1) False by (cases s) simp_all
  have "\<not> isspace (hd (rev s))" using e(2) False by (simp add: hd_rev)
  then have 2: "dropWhile isspace (rev s) = rev s"
    using False by (cases "rev s") simp_all
  show ?thesis by (simp add: strip_def 1 2)
qed

lemma strip_strip: "strip (strip s) = strip s"
  using strip_ends [of s] by (intro strip_id) blast

text \<open>The stripped lines of a file: stripping leaves them alone, and they have no line break.\<close>

lemma old_data_clean:
  assumes "e \<in> set (map strip (readlines prior))"
  shows "strip e = e \<and> LF \<notin> set e \<and> CR \<notin> set e"
proof -
  from assms obtain l where l: "l \<in> set (split_lines (universal_newlines prior))" "e = strip l"
    by (auto simp: readlines_def)
  from split_lines_shape [OF l(1)] obtain b where
    b: "LF \<notin> set b" "set b \<subseteq> set (universal_newlines prior)" "l = b \<or> l = b @ [LF]"
    by auto
  have "strip l = strip b"
    using b(3) by (auto simp: strip_snoc_space isspace_LF)
  then have e: "e = strip b" using l(2) by simp
  have "CR \<notin> set b" using b(2) universal_newlines_no_CR by auto
  then show ?thesis
    using e b(1) set_strip [of b] by (auto simp: strip_strip)
qed

section \<open>Merging twice\<close>

lemma union_again:
  assumes fresh: "\<forall>y \<in> set fresh. strip y = y \<and> LF \<notin> set y \<and> CR \<notin> set y"
      and out: "all_data rank False (Some prior) fresh \<noteq> []"
  shows "map strip (readlines (file_text (all_data rank False (Some prior) fresh))) =
           all_data rank False (Some prior) fresh"
proof -
  let ?out = "all_data rank False (Some prior) fresh"
  have clean: "strip e = e \<and> LF \<notin> set e \<and> CR \<notin> set e" if "e \<in> set ?out" for e
    using that fresh old_data_clean [of e prior] by (auto simp: all_data_union_set)
  then have "readlines (file_text ?out) = map (\<lambda>l. l @ [LF]) ?out"
    using out by (intro readlines_file_text) auto
  then have "map strip (readlines (file_text ?out)) = map strip ?out"
    by (simp add: strip_snoc_space isspace_LF comp_def)
  also have "\<dots> = ?out"
    using clean by (simp add: map_idI)
  finally show ?thesis .
qed

text \<open>
  C6. A second Union merge of the same fresh entries writes the same text again, whatever
  the iteration orders of the two sets, when every fresh entry is free of white space at
  its ends and of line breaks, and no two distinct lines (stripped prior lines or fresh
  entries) have the same case-folded key.
\<close>

theorem union_merge_idempotent:
  assumes "\<forall>y \<in> set fresh. strip y = y \<and> LF \<notin> set y \<and> CR \<notin> set y"
      and "inj_on casefold (set (map strip (readlines prior)) \<union> set fresh)"
  shows "file_text (all_data rank' False
           (Some (file_text (all_data rank False (Some prior) fresh))) fresh)
         = file_text (all_data rank False (Some prior) fresh)"
proof (cases "all_data rank False (Some prior) fresh = []")
  case True
  then have "set (all_data rank False (Some prior) fresh) = {}"
    by simp
  then have "fresh = []"
    by (simp add: all_data_union_set)
  have "readlines [LF] = [[LF]]"
    by (simp add: readlines_def LF_def CR_def)
  moreover have "strip [LF] = []"
    by (simp add: strip_def isspace_LF)
  ultimately have "all_data rank' False (Some [LF]) [] = [[]]"
    by (simp add: all_data_union set_iter_def)
  then show ?thesis
    using True \<open>fresh = []\<close> by (simp add: file_text_def)
next
  case False
  let ?out1 = "all_data rank False (Some prior) fresh"
  let ?out2 = "all_data rank' False (Some (file_text ?out1)) fresh"
  have s1: "set ?out1 = set (map strip (readlines prior)) \<union> set fresh"
    by (rule all_data_union_set)
  have "set ?out2 = set (map strip (readlines (file_text ?out1))) \<union> set fresh"
    by (rule all_data_union_set)
  also have "\<dots> = set ?out1 \<union> set fresh"
    using union_again [OF assms(1) False] by simp
  also have "\<dots> = set ?out1"
    using s1 by auto
  finally have s2: "set ?out2 = set ?out1" .
  have "inj_on casefold (set ?out2)"
    using assms(2) s1 s2 by simp
  then have "?out2 = ?out1"
    using s2 by (intro sorted_key_unique [of casefold])
      (simp_all add: all_data_union_sorted all_data_union_distinct)
  then show ?thesis by simp
qed

theorem union_merge_idempotent_witness:
  "strip ''b'' = ''b'' \<and> LF \<notin> set ''b'' \<and> CR \<notin> set ''b''
   \<and> strip ''a'' = ''a'' \<and> LF \<notin> set ''a'' \<and> CR \<notin> set ''a''
   \<and> inj_on casefold
        (set (map strip (readlines (''cherry'' @ [LF] @ ''Apple'' @ [LF]))) \<union> set [''b'', ''a'', ''b''])
   \<and> file_text (all_data upper_first False
        (Some (file_text (all_data length False (Some (''cherry'' @ [LF] @ ''Apple'' @ [LF]))
           [''b'', ''a'', ''b''])))
        [''b'', ''a'', ''b''])
      = file_text (all_data length False (Some (''cherry'' @ [LF] @ ''Apple'' @ [LF]))
          [''b'', ''a'', ''b''])
   \<and> file_text (all_data length False (Some (''cherry'' @ [LF] @ ''Apple'' @ [LF]))
          [''b'', ''a'', ''b''])
      = ''a'' @ [LF] @ ''Apple'' @ [LF] @ ''b'' @ [LF] @ ''cherry'' @ [LF]"
proof -
  have e: "strip ''b'' = ''b'' \<and> LF \<notin> set ''b'' \<and> CR \<notin> set ''b''"
      "strip ''a'' = ''a'' \<and> LF \<notin> set ''a'' \<and> CR \<notin> set ''a''"
    by (simp_all add: strip_def isspace_def LF_def CR_def)
  then have h1: "\<forall>y \<in> set [''b'', ''a'', ''b'']. strip y = y \<and> LF \<notin> set y \<and> CR \<notin> set y"
    by simp
  have h2: "inj_on casefold
        (set (map strip (readlines (''cherry'' @ [LF] @ ''Apple'' @ [LF]))) \<union> set [''b'', ''a'', ''b''])"
  proof -
    have "set (map strip (readlines (''cherry'' @ [LF] @ ''Apple'' @ [LF]))) \<union> set [''b'', ''a'', ''b'']
        = set [''cherry'', ''Apple'', ''b'', ''a'']"
      by (simp add: merge_eval insert_commute)
    moreover have "distinct (map casefold [''cherry'', ''Apple'', ''b'', ''a''])"
      by (simp add: casefold_def casefold_char_def)
    then have "inj_on casefold (set [''cherry'', ''Apple'', ''b'', ''a''])"
      by (simp only: distinct_map)
    ultimately show ?thesis
      by (simp only:)
  qed
  note inst = union_merge_idempotent [where rank = length and rank' = upper_first, OF h1 h2]
  have v: "file_text (all_data length False (Some (''cherry'' @ [LF] @ ''Apple'' @ [LF]))
          [''b'', ''a'', ''b''])
      = ''a'' @ [LF] @ ''Apple'' @ [LF] @ ''b'' @ [LF] @ ''cherry'' @ [LF]"
    by (simp add: merge_eval)
  show ?thesis
    using e h2 inst v by (simp only: simp_thms)
qed

theorem union_merge_not_idempotent:
  "file_text (all_data length False (Some (file_text (all_data length False (Some []) ['' a''])))
     ['' a''])
     \<noteq> file_text (all_data length False (Some []) ['' a''])
   \<and> file_text (all_data length False (Some []) ['' a'']) = '' a'' @ [LF]
   \<and> file_text (all_data length False (Some ('' a'' @ [LF])) ['' a'']) = '' a'' @ [LF] @ ''a'' @ [LF]
   \<and> file_text (all_data upper_first False
        (Some (file_text (all_data length False (Some []) [''a'', ''A''])))
        [''a'', ''A''])
     \<noteq> file_text (all_data length False (Some []) [''a'', ''A''])
   \<and> file_text (all_data length False (Some []) [''a'', ''A'']) = ''a'' @ [LF] @ ''A'' @ [LF]
   \<and> file_text (all_data upper_first False (Some (''a'' @ [LF] @ ''A'' @ [LF])) [''a'', ''A''])
       = ''A'' @ [LF] @ ''a'' @ [LF]"
  by (simp add: merge_eval upper_first_def)

section \<open>The tasks of a run\<close>

lemma download_letter_entries_cases:
  "download_letter_entries fuel net rank letter file remove_dead fs =
     (case extract_letter_entries fuel net letter of
        None \<Rightarrow> None
      | Some (Excepted e, s) \<Rightarrow> Some (Inl e)
      | Some (out, s) \<Rightarrow>
          Some (Inr (fs(file letter \<mapsto>
            file_text (all_data rank remove_dead (fs (file letter)) (concat (pages s)))))))"
  by (simp add: download_letter_entries_def download_letter_entries_io_def write_lines_def
        no_io_errors_def Let_def split: option.split outcome.split prod.split)

lemma task_file_eq:
  "task_file fuel net rank letter file remove_dead fs =
     (case extract_letter_entries fuel net letter of
        None \<Rightarrow> fs (file letter)
      | Some (Excepted e, s) \<Rightarrow> fs (file letter)
      | Some (out, s) \<Rightarrow>
          Some (file_text (all_data rank remove_dead (fs (file letter)) (concat (pages s)))))"
  by (simp add: task_file_def download_letter_entries_cases
        split: option.split outcome.split prod.split)

lemma task_file_cong:
  "fs1 (file letter) = fs2 (file letter) \<Longrightarrow>
   task_file fuel net rank letter file remove_dead fs1 =
   task_file fuel net rank letter file remove_dead fs2"
  by (simp add: task_file_eq split: option.split outcome.split prod.split)

lemma download_letter_entries_frame:
  "download_letter_entries fuel net rank letter file remove_dead fs = Some (Inr fs') \<Longrightarrow>
   p \<noteq> file letter \<Longrightarrow> fs' p = fs p"
  by (auto simp: download_letter_entries_cases split: option.splits outcome.splits prod.splits)

lemma run_tasks_files:
  assumes "distinct (map file ls)"
      and "run_tasks fuel nets rank ls file remove_dead fs = Some fs'"
  shows "(\<forall>p. p \<notin> file ` set ls \<longrightarrow> fs' p = fs p)
       \<and> (\<forall>l \<in> set ls. fs' (file l) = task_file fuel (nets l) rank l file remove_dead fs)"
  using assms
proof (induction ls arbitrary: fs)
  case Nil
  then show ?case by simp
next
  case (Cons l ls)
  let ?r = "download_letter_entries fuel (nets l) rank l file remove_dead fs"
  define fs1 where "fs1 = (case ?r of Some (Inr f) \<Rightarrow> f | _ \<Rightarrow> fs)"
  have run: "run_tasks fuel nets rank ls file remove_dead fs1 = Some fs'"
    using Cons.prems(2) by (auto simp: fs1_def split: option.splits sum.splits)
  have frame: "fs1 p = fs p" if "p \<noteq> file l" for p
    using that download_letter_entries_frame [of fuel "nets l" rank l "file" remove_dead fs _ p]
    by (auto simp: fs1_def split: option.splits sum.splits)
  have own: "fs1 (file l) = task_file fuel (nets l) rank l file remove_dead fs"
    by (auto simp: fs1_def task_file_def split: option.splits sum.splits)
  have d: "distinct (map file ls)" "file l \<notin> file ` set ls"
    using Cons.prems(1) by simp_all
  note IH = Cons.IH [OF d(1) run]
  have 1: "fs' p = fs p" if "p \<notin> file ` set (l # ls)" for p
    using that IH frame by simp
  have 2: "fs' (file l) = task_file fuel (nets l) rank l file remove_dead fs"
    using IH d(2) own by simp
  have 3: "fs' (file b) = task_file fuel (nets b) rank b file remove_dead fs" if "b \<in> set ls" for b
  proof -
    have "file b \<in> file ` set ls" using that by (rule imageI)
    then have "file b \<noteq> file l" using d(2) by metis
    then have "fs1 (file b) = fs (file b)" by (rule frame)
    then have "task_file fuel (nets b) rank b file remove_dead fs1
        = task_file fuel (nets b) rank b file remove_dead fs"
      by (rule task_file_cong)
    then show ?thesis using IH that by simp
  qed
  show ?case using 1 2 3 by auto
qed

lemma run_tasks_returns:
  "\<forall>l \<in> set ls. extract_letter_entries fuel (nets l) l \<noteq> None \<Longrightarrow>
   \<exists>fs'. run_tasks fuel nets rank ls file remove_dead fs = Some fs'"
proof (induction ls arbitrary: fs)
  case Nil
  then show ?case by simp
next
  case (Cons l ls)
  then have "download_letter_entries fuel (nets l) rank l file remove_dead fs \<noteq> None"
    by (auto simp: download_letter_entries_cases split: option.splits outcome.splits prod.splits)
  with Cons show ?case
    by (auto split: option.splits sum.splits)
qed

section \<open>A letter that is given up\<close>

text \<open>
  C9. When a letter's crawl is given up at the retry ceiling, its task still merges the
  pages collected before and writes the letter's file; the run goes on through every other
  letter, and the file of every other letter is what that letter's own task writes, as
  long as the paths of the letters differ and every crawl ends.
\<close>

theorem fatal_failure_isolated:
  assumes "0 < max_workers" and "distinct (map file letters)" and "a \<in> set letters"
      and "extract_letter_entries fuel (nets a) a = Some (Abandoned, s)"
      and "\<forall>l \<in> set letters. extract_letter_entries fuel (nets l) l \<noteq> None"
  shows "\<exists>fs'. download_entries fuel nets rank letters file remove_dead max_workers fs = Some (Inr fs')
           \<and> fs' (file a) =
               Some (file_text (all_data rank remove_dead (fs (file a)) (concat (pages s))))
           \<and> (\<forall>b \<in> set letters. b \<noteq> a \<longrightarrow>
                 fs' (file b) = task_file fuel (nets b) rank b file remove_dead fs)"
proof -
  from run_tasks_returns [OF assms(5)] obtain fs' where
    run: "run_tasks fuel nets rank letters file remove_dead fs = Some fs'"
    by blast
  note files = run_tasks_files [OF assms(2) run]
  have "fs' (file a) = task_file fuel (nets a) rank a file remove_dead fs"
    using files assms(3) by blast
  then have "fs' (file a) =
      Some (file_text (all_data rank remove_dead (fs (file a)) (concat (pages s))))"
    using assms(4) by (simp add: task_file_eq)
  moreover have "download_entries fuel nets rank letters file remove_dead max_workers fs
      = Some (Inr fs')"
    using assms(1) run by (simp add: download_entries_def)
  ultimately show ?thesis
    using files by blast
qed

theorem fatal_failure_isolated_witness:
  "0 < (20::int) \<and> distinct (map default_out [''A'', ''B'']) \<and> ''A'' \<in> set [''A'', ''B'']
   \<and> (\<exists>s. extract_letter_entries 13 (nets_ab ''A'') ''A'' = Some (Abandoned, s)
          \<and> concat (pages s) = [''b'', ''a'', ''b''])
   \<and> extract_letter_entries 13 (nets_ab ''B'') ''B'' \<noteq> None
   \<and> file_after (download_entries 13 nets_ab length [''A'', ''B''] default_out False 20 old_files)
        (default_out ''A'')
       = Some (''a'' @ [LF] @ ''Apple'' @ [LF] @ ''b'' @ [LF] @ ''cherry'' @ [LF])
   \<and> file_after (download_entries 13 nets_ab length [''A'', ''B''] default_out False 20 old_files)
        (default_out ''B'')
       = Some (''b'' @ [LF] @ ''a'' @ [LF] @ ''b'' @ [LF])
   \<and> task_file 13 (nets_ab ''B'') length ''B'' default_out False old_files
        = Some (''b'' @ [LF] @ ''a'' @ [LF] @ ''b'' @ [LF])"
proof -
  have h1: "0 < (20::int)"
    by simp
  have h2: "distinct (map default_out [''A'', ''B''])"
    by (simp add: default_out_def)
  have h3: "''A'' \<in> set [''A'', ''B'']"
    by simp
  have na: "nets_ab ''A'' = net_second_down" and nb: "nets_ab ''B'' = net_one_page"
    by (simp_all add: nets_ab_def)
  have a_run: "\<exists>s. extract_letter_entries 13 (nets_ab ''A'') ''A'' = Some (Abandoned, s)
          \<and> concat (pages s) = [''b'', ''a'', ''b'']"
  proof -
    have "extract_letter_entries 13 net_second_down ''A''
        = crawl_loop 12 net_second_down ''A'' at_second_page"
      by (simp add: extract_letter_entries_def initial_state_def crawl_loop_unfold [of 13]
            crawl_step_def Let_def net_second_down_def first_page_results at_second_page_def
            second_url_def API_def)
    moreover have "\<exists>s'. crawl_loop 12 net_second_down ''A'' at_second_page = Some (Abandoned, s')
           \<and> clock s' = clock at_second_page + (MAX_ATTEMPTS + 1 - attempt at_second_page)
           \<and> pages s' = pages at_second_page
           \<and> map fst (fetches (trace s')) =
               map fst (fetches (trace at_second_page))
                 @ replicate (MAX_ATTEMPTS + 1 - attempt at_second_page) second_url"
      by (rule crawl_loop_down [where u = second_url])
        (simp_all add: at_second_page_def second_url_def net_second_down_def API_def
           MAX_ATTEMPTS_def)
    ultimately show ?thesis
      unfolding na by (auto simp: at_second_page_def)
  qed
  then obtain s where s: "extract_letter_entries 13 (nets_ab ''A'') ''A'' = Some (Abandoned, s)
          \<and> concat (pages s) = [''b'', ''a'', ''b'']" ..
  have b_run: "\<exists>sb. extract_letter_entries 13 (nets_ab ''B'') ''B'' = Some (Exhausted, sb)
          \<and> concat (pages sb) = [''b'', ''a'', ''b'']"
    unfolding nb by (simp add: crawl_eval net_one_page_def only_page_def API_def)
  then obtain sb where sb: "extract_letter_entries 13 (nets_ab ''B'') ''B'' = Some (Exhausted, sb)
          \<and> concat (pages sb) = [''b'', ''a'', ''b'']" ..
  then have b_ok: "extract_letter_entries 13 (nets_ab ''B'') ''B'' \<noteq> None"
    by simp
  have h5: "\<forall>l \<in> set [''A'', ''B'']. extract_letter_entries 13 (nets_ab l) l \<noteq> None"
    using s b_ok by simp
  note inst = fatal_failure_isolated [where max_workers = 20 and ?file = default_out
      and letters = "[''A'', ''B'']" and a = "''A''" and fuel = 13 and nets = nets_ab
      and s = s and rank = length and remove_dead = False and fs = old_files,
      OF h1 h2 h3 s [THEN conjunct1] h5]
  then obtain fs' where fs':
      "download_entries 13 nets_ab length [''A'', ''B''] default_out False 20 old_files
         = Some (Inr fs')
       \<and> fs' (default_out ''A'') =
           Some (file_text (all_data length False (old_files (default_out ''A''))
             (concat (pages s))))
       \<and> (\<forall>b \<in> set [''A'', ''B'']. b \<noteq> ''A'' \<longrightarrow>
             fs' (default_out b) = task_file 13 (nets_ab b) length b default_out False old_files)" ..
  have va: "file_text (all_data length False (old_files (default_out ''A'')) [''b'', ''a'', ''b''])
      = ''a'' @ [LF] @ ''Apple'' @ [LF] @ ''b'' @ [LF] @ ''cherry'' @ [LF]"
    by (simp add: old_files_def merge_eval)
  have pb: "old_files (default_out ''B'') = None"
    by (simp add: old_files_def default_out_def)
  have vb: "task_file 13 (nets_ab ''B'') length ''B'' default_out False old_files
        = Some (''b'' @ [LF] @ ''a'' @ [LF] @ ''b'' @ [LF])"
    using sb by (simp add: task_file_eq pb all_data_no_prior file_text_def)
  have fa: "fs' (default_out ''A'')
      = Some (''a'' @ [LF] @ ''Apple'' @ [LF] @ ''b'' @ [LF] @ ''cherry'' @ [LF])"
    using fs' [THEN conjunct2, THEN conjunct1] unfolding s [THEN conjunct2] va .
  have m: "''B'' \<in> set [''A'', ''B'']" and n: "''B'' \<noteq> ''A''"
    by simp_all
  have fb: "fs' (default_out ''B'')
      = task_file 13 (nets_ab ''B'') length ''B'' default_out False old_files"
    by (rule fs' [THEN conjunct2, THEN conjunct2, rule_format, OF m n])
  have d: "download_entries 13 nets_ab length [''A'', ''B''] default_out False 20 old_files
      = Some (Inr fs')"
    by (rule fs' [THEN conjunct1])
  have ra: "file_after (download_entries 13 nets_ab length [''A'', ''B''] default_out False 20 old_files)
        (default_out ''A'')
       = Some (''a'' @ [LF] @ ''Apple'' @ [LF] @ ''b'' @ [LF] @ ''cherry'' @ [LF])"
    unfolding d file_after_def using fa by simp
  have rb: "file_after (download_entries 13 nets_ab length [''A'', ''B''] default_out False 20 old_files)
        (default_out ''B'')
       = Some (''b'' @ [LF] @ ''a'' @ [LF] @ ''b'' @ [LF])"
    unfolding d file_after_def using fb vb by simp
  show ?thesis
    by (rule conjI [OF h1 conjI [OF h2 conjI [OF h3 conjI [OF a_run conjI [OF b_ok
          conjI [OF ra conjI [OF rb vb]]]]]]])
qed

end
